theory Spec2Isabelle
  imports Complex_Main "HOL-Library.Word" "HOL-Library.List_Lexorder" "HOL-Library.Char_ord"
    "HOL-Library.Multiset"
begin

section \<open>Strings (package strings)\<close>

text \<open>
  A Go string is a sequence of bytes. The functions of package \<open>strings\<close> that the
  repository calls are modelled on bytes. White space is what \<open>unicode.IsSpace\<close> accepts:
  the six ASCII characters and the runes U+0085, U+00A0, U+1680, U+2000 to U+200A, U+2028,
  U+2029, U+202F, U+205F and U+3000, listed here in their UTF-8 encodings.
\<close>

abbreviation LF :: char where "LF \<equiv> CHR 0x0A"
abbreviation CR :: char where "CR \<equiv> CHR 0x0D"

definition space_runes :: "string list" where
  "space_runes =
     [[CHR 0x09], [LF], [CHR 0x0B], [CHR 0x0C], [CR], [CHR 0x20],
      [CHR 0xC2, CHR 0x85], [CHR 0xC2, CHR 0xA0],
      [CHR 0xE1, CHR 0x9A, CHR 0x80],
      [CHR 0xE2, CHR 0x80, CHR 0x80], [CHR 0xE2, CHR 0x80, CHR 0x81],
      [CHR 0xE2, CHR 0x80, CHR 0x82], [CHR 0xE2, CHR 0x80, CHR 0x83],
      [CHR 0xE2, CHR 0x80, CHR 0x84], [CHR 0xE2, CHR 0x80, CHR 0x85],
      [CHR 0xE2, CHR 0x80, CHR 0x86], [CHR 0xE2, CHR 0x80, CHR 0x87],
      [CHR 0xE2, CHR 0x80, CHR 0x88], [CHR 0xE2, CHR 0x80, CHR 0x89],
      [CHR 0xE2, CHR 0x80, CHR 0x8A],
      [CHR 0xE2, CHR 0x80, CHR 0xA8], [CHR 0xE2, CHR 0x80, CHR 0xA9],
      [CHR 0xE2, CHR 0x80, CHR 0xAF],
      [CHR 0xE2, CHR 0x81, CHR 0x9F],
      [CHR 0xE3, CHR 0x80, CHR 0x80]]"

text \<open>The length of the encoding in \<open>rs\<close> that \<open>s\<close> starts with, 0 when there is none.\<close>

definition leading_rune :: "string list \<Rightarrow> string \<Rightarrow> nat" where
  "leading_rune rs s =
     (case find (\<lambda>e. e \<noteq> [] \<and> take (length e) s = e) rs of
        Some e \<Rightarrow> length e
      | None \<Rightarrow> 0)"

function strip_runes :: "string list \<Rightarrow> string \<Rightarrow> string" where
  "strip_runes rs s =
     (if leading_rune rs s = 0 then s else strip_runes rs (drop (leading_rune rs s) s))"
  by pat_completeness auto
termination
proof (relation "measure (\<lambda>(rs, s). length s)")
  show "wf (measure (\<lambda>(rs, s). length s))" by simp
next
  fix rs :: "string list" and s :: string
  assume "leading_rune rs s \<noteq> 0"
  then obtain e where "e \<noteq> []" "take (length e) s = e"
    by (auto simp: leading_rune_def find_Some_iff split: option.splits)
  then have "s \<noteq> []" by auto
  with \<open>leading_rune rs s \<noteq> 0\<close>
  show "((rs, drop (leading_rune rs s) s), (rs, s)) \<in> measure (\<lambda>(rs, s). length s)"
    by simp
qed

text \<open>
  \<open>TrimSpace\<close> removes the leading white space, then the trailing white space of what
  is left (a trailing rune is found by its encoding read backwards).
\<close>

definition TrimSpace :: "string \<Rightarrow> string" where
  "TrimSpace s = rev (strip_runes (map rev space_runes) (rev (strip_runes space_runes s)))"

text \<open>\<open>Fields\<close> splits around each run of white space; \<open>cur\<close> is the field being read.\<close>

function fields_loop :: "string \<Rightarrow> string \<Rightarrow> string list" where
  "fields_loop cur s =
     (if s = [] then (if cur = [] then [] else [cur])
      else if leading_rune space_runes s = 0 then fields_loop (cur @ [hd s]) (tl s)
      else (if cur = [] then [] else [cur]) @ fields_loop [] (drop (leading_rune space_runes s) s))"
  by pat_completeness auto
termination
  by (relation "measure (\<lambda>(cur, s). length s)") auto


text \<open>\<open>Split\<close> and \<open>Join\<close> for a separator of one byte, as every call in the repository has.\<close>

fun Split :: "string \<Rightarrow> char \<Rightarrow> string list" where
  "Split [] sep = [[]]"
| "Split (c # s) sep =
     (if c = sep then [] # Split s sep
      else (case Split s sep of [] \<Rightarrow> [[c]] | part # parts \<Rightarrow> (c # part) # parts))"

fun Join :: "string list \<Rightarrow> char \<Rightarrow> string" where
  "Join [] sep = []"
| "Join [a] sep = a"
| "Join (a # b # elems) sep = a @ sep # Join (b # elems) sep"

text \<open>
  \<open>ReplaceAll s old new\<close> for a non-empty \<open>old\<close>: the occurrences are replaced from the
  left and do not overlap. (No call in the repository has an empty \<open>old\<close>.)
\<close>

function ReplaceAll :: "string \<Rightarrow> string \<Rightarrow> string \<Rightarrow> string" where
  "ReplaceAll s old new =
     (if s = [] \<or> old = [] then s
      else if take (length old) s = old then new @ ReplaceAll (drop (length old) s) old new
      else hd s # ReplaceAll (tl s) old new)"
  by pat_completeness auto
termination
  by (relation "measure (\<lambda>(s, old, new). length s)") auto

text \<open>\<open>TrimRight s cutset\<close> for a cutset of single bytes; \<open>TrimSuffix\<close>; \<open>IndexByte\<close>.\<close>

definition TrimRight :: "string \<Rightarrow> string \<Rightarrow> string" where
  "TrimRight s cutset = rev (dropWhile (\<lambda>c. c \<in> set cutset) (rev s))"






section \<open>The managed block of the hosts file (package hostsfile)\<close>

definition beginMarker :: string where
  "beginMarker = ''# ip-opt-gui begin''"

definition endMarker :: string where
  "endMarker = ''# ip-opt-gui end''"

text \<open>A \<open>Mapping\<close> is the pair of its fields \<open>IP\<close> and \<open>Domain\<close>, in this order.\<close>

datatype Mapping = Mapping string string

definition normalizeNewlines :: "string \<Rightarrow> string" where
  "normalizeNewlines s = ReplaceAll (ReplaceAll s [CR, LF] [LF]) [CR] [LF]"

fun mapping_line :: "Mapping \<Rightarrow> string" where
  "mapping_line (Mapping mip mdomain) =
     (let ip = TrimSpace mip; d = TrimSpace mdomain
      in if ip = [] \<or> d = [] then [] else ip @ '' '' @ d @ [LF])"

definition BuildManagedBlock :: "Mapping list \<Rightarrow> string" where
  "BuildManagedBlock mappings =
     beginMarker @ [LF] @ concat (map mapping_line mappings) @ endMarker @ [LF]"

text \<open>
  The loop of \<open>ApplyManagedBlock\<close> over the lines, with its flag \<open>inManaged\<close>; the
  result is the list \<open>out\<close> of the lines kept.
\<close>

fun managed_loop :: "string list \<Rightarrow> bool \<Rightarrow> string list" where
  "managed_loop [] inManaged = []"
| "managed_loop (line # lines) inManaged =
     (let lineTrim = TrimSpace line
      in if \<not> inManaged \<and> lineTrim = beginMarker then managed_loop lines True
         else if inManaged then
           (if lineTrim = endMarker then managed_loop lines False else managed_loop lines True)
         else line # managed_loop lines False)"

definition ApplyManagedBlock :: "string \<Rightarrow> string \<Rightarrow> string" where
  "ApplyManagedBlock existing block =
     (let existing' = normalizeNewlines existing;
          lines = Split existing' LF;
          out = managed_loop lines False;
          next = TrimRight (Join out LF) [LF];
          next' = (if next \<noteq> [] then next @ [LF] else next)
      in next' @ normalizeNewlines block)"

text \<open>
  The lines of a text that are a marker, the way \<open>ApplyManagedBlock\<close> recognises one (the
  trimmed line is the marker), and their number.
\<close>

definition marker_lines :: "string \<Rightarrow> string \<Rightarrow> nat" where
  "marker_lines marker s = length (filter (\<lambda>line. TrimSpace line = marker) (Split s LF))"


text \<open>
  The two replacements of \<open>normalizeNewlines\<close> in one pass, for the proofs: a carriage
  return becomes a line feed, and swallows the line feed that follows it.
\<close>

fun nl :: "string \<Rightarrow> string" where
  "nl [] = []"
| "nl [c] = (if c = CR then [LF] else [c])"
| "nl (c # d # s) =
     (if c = CR then (if d = LF then LF # nl s else LF # nl (d # s)) else c # nl (d # s))"

section \<open>Paths, time stamps and files (path/filepath, time, os)\<close>

text \<open>
  Package \<open>path/filepath\<close> on a system whose separator is \<open>/\<close> and that has no volume
  names. \<open>Clean\<close> reads the elements of the path from the left and keeps the elements
  of the result in \<open>out\<close>: an empty element and \<open>.\<close> are dropped, \<open>..\<close> removes the
  element before it, is dropped at the root, and is kept at the start of a relative path.
\<close>

fun clean_elems :: "bool \<Rightarrow> string list \<Rightarrow> string list \<Rightarrow> string list" where
  "clean_elems rooted out [] = out"
| "clean_elems rooted out (e # es) =
     (if e = [] \<or> e = ''.'' then clean_elems rooted out es
      else if e = ''..'' then
        (if out \<noteq> [] \<and> last out \<noteq> ''..'' then clean_elems rooted (butlast out) es
         else if \<not> rooted then clean_elems rooted (out @ [''..'']) es
         else clean_elems rooted out es)
      else clean_elems rooted (out @ [e]) es)"

definition Clean :: "string \<Rightarrow> string" where
  "Clean path =
     (if path = [] then ''.''
      else
        let rooted = (hd path = CHR ''/'');
            out = clean_elems rooted [] (Split path (CHR ''/''));
            r = (if rooted then ''/'' else []) @ Join out (CHR ''/'')
        in if r = [] then ''.'' else r)"

definition Dir :: "string \<Rightarrow> string" where
  "Dir path = Clean (rev (dropWhile (\<lambda>c. c \<noteq> CHR ''/'') (rev path)))"

definition Base :: "string \<Rightarrow> string" where
  "Base path =
     (if path = [] then ''.''
      else
        let path1 = rev (dropWhile (\<lambda>c. c = CHR ''/'') (rev path));
            path2 = rev (takeWhile (\<lambda>c. c \<noteq> CHR ''/'') (rev path1))
        in if path2 = [] then ''/'' else path2)"

definition filepath_Join :: "string list \<Rightarrow> string" where
  "filepath_Join elem =
     (case dropWhile (\<lambda>e. e = []) elem of
        [] \<Rightarrow> []
      | e # es \<Rightarrow> Clean (Join (e # es) (CHR ''/'')))"

text \<open>
  For the proofs about \<open>Clean\<close>: the string that \<open>Clean\<close> builds from the elements it
  kept, and the shape of a cleaned list of elements: every element is a plain name (not
  empty, not \<open>.\<close>, not \<open>..\<close>, without separator), after a run of \<open>..\<close> at the start of a
  relative path.
\<close>

definition clean_render :: "bool \<Rightarrow> string list \<Rightarrow> string" where
  "clean_render rooted out =
     (let r = (if rooted then ''/'' else []) @ Join out (CHR ''/'') in if r = [] then ''.'' else r)"

definition plain_elem :: "string \<Rightarrow> bool" where
  "plain_elem e \<longleftrightarrow> e \<noteq> [] \<and> e \<noteq> ''.'' \<and> e \<noteq> ''..'' \<and> CHR ''/'' \<notin> set e"

definition clean_stack :: "bool \<Rightarrow> string list \<Rightarrow> bool" where
  "clean_stack rooted out \<longleftrightarrow>
     list_all plain_elem (if rooted then out else dropWhile (\<lambda>e. e = ''..'') out)"

text \<open>
  A \<open>time.Time\<close> by its calendar fields, and \<open>Format\<close> with the layout
  \<open>20060102_150405\<close> of \<open>backupFile\<close>: the year padded with zeros to four digits, then
  month, day, an underscore, hour, minute and second, each padded to two digits.
\<close>

record Time =
  Year :: nat
  Month :: nat
  Day :: nat
  Hour :: nat
  Minute :: nat
  Second :: nat

fun digits :: "nat \<Rightarrow> string" where
  "digits n =
     (if n < 10 then [''0123456789'' ! n] else digits (n div 10) @ [''0123456789'' ! (n mod 10)])"

definition appendInt :: "nat \<Rightarrow> nat \<Rightarrow> string" where
  "appendInt x width = replicate (width - length (digits x)) (CHR ''0'') @ digits x"

definition Format_20060102_150405 :: "Time \<Rightarrow> string" where
  "Format_20060102_150405 t =
     appendInt (Year t) 4 @ appendInt (Month t) 2 @ appendInt (Day t) 2 @ ''_'' @
     appendInt (Hour t) 2 @ appendInt (Minute t) 2 @ appendInt (Second t) 2"

definition valid_time :: "Time \<Rightarrow> bool" where
  "valid_time t \<longleftrightarrow>
     Year t \<le> 9999 \<and> 1 \<le> Month t \<and> Month t \<le> 12 \<and> 1 \<le> Day t \<and> Day t \<le> 31 \<and>
     Hour t \<le> 23 \<and> Minute t \<le> 59 \<and> Second t \<le> 59"

text \<open>
  The file system: the content and the permission bits of every file, the paths on which
  \<open>os.WriteFile\<close> fails (with the error's text, and without changing the file), and the
  trace of the writes done, in their order. \<open>os.WriteFile\<close> keeps the permission bits of
  a file that exists and gives \<open>perm\<close> to a file it creates; the mode \<open>0644\<close> is 420.
\<close>

record FS =
  files :: "string \<rightharpoonup> string \<times> nat"
  write_errors :: "string \<rightharpoonup> string"
  trace :: "(string \<times> string) list"

definition os_ReadFile :: "FS \<Rightarrow> string \<Rightarrow> string + string" where
  "os_ReadFile fs name =
     (case files fs name of None \<Rightarrow> Inl ''no such file or directory'' | Some (b, mode) \<Rightarrow> Inr b)"

definition os_Stat :: "FS \<Rightarrow> string \<Rightarrow> nat option" where
  "os_Stat fs name = map_option snd (files fs name)"

definition os_WriteFile :: "FS \<Rightarrow> string \<Rightarrow> string \<Rightarrow> nat \<Rightarrow> string + FS" where
  "os_WriteFile fs name data perm =
     (case write_errors fs name of
        Some err \<Rightarrow> Inl err
      | None \<Rightarrow>
          Inr (fs\<lparr>files := (files fs)(name \<mapsto>
                      (data, case files fs name of None \<Rightarrow> perm | Some (b, mode) \<Rightarrow> mode)),
                  trace := trace fs @ [(name, data)]\<rparr>))"

definition Read :: "FS \<Rightarrow> string \<Rightarrow> string + string" where
  "Read fs path = (case os_ReadFile fs path of Inl err \<Rightarrow> Inl err | Inr b \<Rightarrow> Inr b)"

definition backup_path :: "Time \<Rightarrow> string \<Rightarrow> string" where
  "backup_path now path =
     (let dir = Dir path;
          base = Base path;
          ts = Format_20060102_150405 now
      in filepath_Join [dir, base @ ''.bak.'' @ ts])"

definition backupFile :: "FS \<Rightarrow> Time \<Rightarrow> string \<Rightarrow> string \<Rightarrow> (string + string) \<times> FS" where
  "backupFile fs now path content =
     (let backup = backup_path now path
      in case os_WriteFile fs backup content 420 of
           Inl err \<Rightarrow> (Inl err, fs)
         | Inr fs' \<Rightarrow> (Inr backup, fs'))"

definition WriteWithBackup ::
  "FS \<Rightarrow> Time \<Rightarrow> string \<Rightarrow> Mapping list \<Rightarrow> (string + string \<times> string) \<times> FS" where
  "WriteWithBackup fs now path mappings =
     (case Read fs path of
        Inl err \<Rightarrow> (Inl err, fs)
      | Inr orig \<Rightarrow>
          let block = BuildManagedBlock mappings;
              newContent = ApplyManagedBlock orig block
          in case backupFile fs now path orig of
               (Inl err, fs1) \<Rightarrow> (Inl err, fs1)
             | (Inr backupPath, fs1) \<Rightarrow>
                 let mode = (case os_Stat fs1 path of Some m \<Rightarrow> m | None \<Rightarrow> 420)
                 in case os_WriteFile fs1 path newContent mode of
                      Inl err \<Rightarrow> (Inl err, fs1)
                    | Inr fs2 \<Rightarrow> (Inr (backupPath, newContent), fs2))"

definition RestoreBackup :: "FS \<Rightarrow> string \<Rightarrow> string \<Rightarrow> string option \<times> FS" where
  "RestoreBackup fs backupPath hostsPath =
     (if TrimSpace backupPath = [] then (Some ''empty backup path'', fs)
      else case os_ReadFile fs backupPath of
             Inl err \<Rightarrow> (Some err, fs)
           | Inr b \<Rightarrow>
               let mode = (case os_Stat fs hostsPath of Some m \<Rightarrow> m | None \<Rightarrow> 420)
               in case os_WriteFile fs hostsPath b mode of
                    Inl err \<Rightarrow> (Some err, fs)
                  | Inr fs' \<Rightarrow> (None, fs'))"

text \<open>
  The two shapes of a backup's name: the one of the specification,
  \<open><original-name>.bak.<YYYYMMDDHHMMSS>\<close> with fourteen digits, and the one that the layout
  of \<open>backupFile\<close> gives, eight digits, an underscore and six digits.
\<close>

definition is_digit :: "char \<Rightarrow> bool" where
  "is_digit c \<longleftrightarrow> CHR ''0'' \<le> c \<and> c \<le> CHR ''9''"

definition spec_backup_name :: "string \<Rightarrow> string \<Rightarrow> bool" where
  "spec_backup_name original name \<longleftrightarrow>
     take (length original + 5) name = original @ ''.bak.'' \<and>
     length (drop (length original + 5) name) = 14 \<and>
     list_all is_digit (drop (length original + 5) name)"

definition stamped_backup_name :: "string \<Rightarrow> string \<Rightarrow> bool" where
  "stamped_backup_name original name \<longleftrightarrow>
     take (length original + 5) name = original @ ''.bak.'' \<and>
     (let ts = drop (length original + 5) name
      in length ts = 15 \<and> list_all is_digit (take 8 ts) \<and> ts ! 8 = CHR ''_'' \<and>
         list_all is_digit (drop 9 ts))"

section \<open>Domain names (package domain)\<close>








text \<open>
  The contract of the parser, in the words of the specification (section 4.1) and not of
  the code: the text is cut into lines at its line breaks; a line loses its comment, which
  starts at the first \<open>#\<close>, and is split into tokens at white space, commas and
  semicolons; a token is put in lower case and loses one trailing dot; it is valid when it
  has at most 253 characters and each of its labels, the pieces between the dots, has 1 to
  63 characters among \<open>a-z\<close>, \<open>0-9\<close> and \<open>-\<close>; the result is the valid tokens, each
  at its first occurrence. The contract is stated for ASCII text: the white space is the
  six ASCII characters and the letters are \<open>A-Z\<close>.
\<close>

fun pieces :: "(char \<Rightarrow> bool) \<Rightarrow> string \<Rightarrow> string list" where
  "pieces p [] = [[]]"
| "pieces p (c # s) =
     (if p c then [] # pieces p s
      else (case pieces p s of [] \<Rightarrow> [[c]] | t # ts \<Rightarrow> (c # t) # ts))"













section \<open>The configuration of a run (package engine)\<close>

text \<open>A \<open>time.Duration\<close> is a count of nanoseconds.\<close>

type_synonym Duration = int

record Config =
  DNSServers :: "string list"
  Port :: int
  Timeout :: Duration
  Attempts :: int
  Concurrency :: int
  IPv4 :: bool
  IPv6 :: bool

definition validate :: "Config \<Rightarrow> string option" where
  "validate c =
     (if Port c \<le> 0 \<or> Port c > 65535 then Some ''invalid port''
      else if Timeout c \<le> 0 then Some ''invalid timeout''
      else if Attempts c \<le> 0 then Some ''invalid attempts''
      else if Concurrency c \<le> 0 then Some ''invalid concurrency''
      else if \<not> IPv4 c \<and> \<not> IPv6 c then Some ''select ipv4 and/or ipv6''
      else None)"

section \<open>Addresses (net/netip) and candidate statistics (package model)\<close>

text \<open>
  A \<open>netip.Addr\<close> is the zero value, an IPv4 address, or an IPv6 address with a zone
  (the empty zone is "no zone"). \<open>Compare\<close> orders by bit length (0, 32, 128), then by the
  address bits, then, for IPv6, by the zone string; \<open>Less\<close> is \<open>Compare = -1\<close>.
\<close>

datatype Addr = AddrZero | Addr4 "32 word" | Addr6 "128 word" string

fun BitLen :: "Addr \<Rightarrow> nat" where
  "BitLen AddrZero = 0"
| "BitLen (Addr4 _) = 32"
| "BitLen (Addr6 _ _) = 128"

fun IsValid :: "Addr \<Rightarrow> bool" where
  "IsValid AddrZero = False"
| "IsValid _ = True"

fun Is4 :: "Addr \<Rightarrow> bool" where
  "Is4 (Addr4 _) = True"
| "Is4 _ = False"

fun Is6 :: "Addr \<Rightarrow> bool" where
  "Is6 (Addr6 _ _) = True"
| "Is6 _ = False"

definition IsUnspecified :: "Addr \<Rightarrow> bool" where
  "IsUnspecified ip \<longleftrightarrow> ip = Addr4 0 \<or> ip = Addr6 0 []"

fun addr_bits :: "Addr \<Rightarrow> nat" where
  "addr_bits AddrZero = 0"
| "addr_bits (Addr4 w) = unat w"
| "addr_bits (Addr6 w _) = unat w"

fun Zone :: "Addr \<Rightarrow> string" where
  "Zone (Addr6 _ z) = z"
| "Zone _ = []"

definition Compare :: "Addr \<Rightarrow> Addr \<Rightarrow> int" where
  "Compare ip ip2 =
     (if BitLen ip < BitLen ip2 then -1
      else if BitLen ip > BitLen ip2 then 1
      else if addr_bits ip < addr_bits ip2 then -1
      else if addr_bits ip > addr_bits ip2 then 1
      else if Is6 ip then
        (if Zone ip < Zone ip2 then -1 else if Zone ip > Zone ip2 then 1 else 0)
      else 0)"

definition Less :: "Addr \<Rightarrow> Addr \<Rightarrow> bool" where
  "Less ip ip2 \<longleftrightarrow> Compare ip ip2 = -1"

text \<open>
  \<open>time.Duration\<close> is a count of nanoseconds; Go's \<open>int\<close> is taken as 64 bits wide, and
  the one sum whose operands are not bounded by the code (\<open>Attempts\<close>) wraps around.
  A \<open>float64\<close> is modelled by the real number it stands for, so the quotient of
  \<open>SuccessRate\<close> is the exact quotient.
\<close>

record CandidateStat =
  IP :: Addr
  Successes :: int
  Failures :: int
  Samples :: "Duration list"
  P50 :: Duration
  P95 :: Duration
  JitterStd :: Duration
  LastError :: string
  ResolvedVia :: string

definition wrap_int64 :: "int \<Rightarrow> int" where
  "wrap_int64 x = (x + 2 ^ 63) mod 2 ^ 64 - 2 ^ 63"

definition Attempts :: "CandidateStat \<Rightarrow> int" where
  "Attempts c = wrap_int64 (Successes c + Failures c)"

definition SuccessRate :: "CandidateStat \<Rightarrow> real" where
  "SuccessRate c =
     (if Attempts c = 0 then 0 else real_of_int (Successes c) / real_of_int (Attempts c))"

definition better :: "CandidateStat \<Rightarrow> CandidateStat \<Rightarrow> bool" where
  "better a b =
     (let ar = SuccessRate a; br = SuccessRate b in
      if ar \<noteq> br then ar > br
      else if P95 a \<noteq> P95 b then P95 a < P95 b
      else if P50 a \<noteq> P50 b then P50 a < P50 b
      else if JitterStd a \<noteq> JitterStd b then JitterStd a < JitterStd b
      else Less (IP a) (IP b))"

section \<open>Probing one candidate (package engine)\<close>

text \<open>
  \<open>quantile\<close> copies its argument, sorts the copy and reads the order statistics; the
  part after the sort is \<open>quantile_sorted\<close>. The conversion \<open>time.Duration(x)\<close> of a
  \<open>float64\<close> truncates toward zero.
\<close>

definition trunc_Duration :: "real \<Rightarrow> Duration" where
  "trunc_Duration x = (if 0 \<le> x then \<lfloor>x\<rfloor> else \<lceil>x\<rceil>)"

definition quantile_sorted :: "Duration list \<Rightarrow> real \<Rightarrow> Duration" where
  "quantile_sorted cp q =
     (if q \<le> 0 then cp ! 0
      else if q \<ge> 1 then cp ! (length cp - 1)
      else
        let pos = q * real (length cp - 1);
            idx = \<lfloor>pos\<rfloor>;
            frac = pos - real_of_int idx
        in if idx \<ge> int (length cp) - 1 then cp ! (length cp - 1)
           else
             let a = cp ! nat idx; b = cp ! (nat idx + 1)
             in trunc_Duration (real_of_int a + (real_of_int b - real_of_int a) * frac))"

definition quantile :: "Duration list \<Rightarrow> real \<Rightarrow> Duration" where
  "quantile samples q = (if length samples = 0 then 0 else quantile_sorted (sort samples) q)"

definition stddev :: "Duration list \<Rightarrow> Duration" where
  "stddev samples =
     (if length samples = 0 then 0
      else
        let sum = (\<Sum>s\<leftarrow>samples. real_of_int s);
            mean = sum / real (length samples);
            v = (\<Sum>s\<leftarrow>samples. (real_of_int s - mean) * (real_of_int s - mean))
                  / real (length samples)
        in trunc_Duration (sqrt v))"

text \<open>
  The network and the context are the environment of \<open>ProbeCandidate\<close>: at iteration
  \<open>i\<close> of its loop, \<open>fst (env i)\<close> is what \<open>ctx.Err()\<close> returns (\<open>None\<close> for nil, otherwise
  the error's text) and \<open>snd (env i)\<close> is what \<open>tcpPing\<close> returns when it is called
  (\<open>Inl\<close> the error's text, \<open>Inr\<close> the measured duration). The loop also counts its calls
  of \<open>tcpPing\<close>, the attempts actually made.
\<close>

type_synonym trial = "string option \<times> (string + Duration)"

fun probe_loop :: "(nat \<Rightarrow> trial) \<Rightarrow> nat \<Rightarrow> nat \<Rightarrow> CandidateStat \<times> nat \<Rightarrow> CandidateStat \<times> nat" where
  "probe_loop env i 0 (st, calls) = (st, calls)"
| "probe_loop env i (Suc k) (st, calls) =
     (case fst (env i) of
        Some e \<Rightarrow> (st\<lparr>LastError := e\<rparr>, calls)
      | None \<Rightarrow>
          (case snd (env i) of
             Inl e \<Rightarrow>
               probe_loop env (Suc i) k (st\<lparr>Failures := Failures st + 1, LastError := e\<rparr>, Suc calls)
           | Inr d \<Rightarrow>
               probe_loop env (Suc i) k
                 (st\<lparr>Successes := Successes st + 1, Samples := Samples st @ [d]\<rparr>, Suc calls)))"

definition new_CandidateStat :: "Addr \<Rightarrow> CandidateStat" where
  "new_CandidateStat ip =
     \<lparr>IP = ip, Successes = 0, Failures = 0, Samples = [], P50 = 0, P95 = 0, JitterStd = 0,
      LastError = [], ResolvedVia = []\<rparr>"

definition finish_stat :: "Duration \<Rightarrow> CandidateStat \<Rightarrow> CandidateStat" where
  "finish_stat timeout st =
     (if length (Samples st) > 0
      then st\<lparr>P50 := quantile (Samples st) (50 / 100), P95 := quantile (Samples st) (95 / 100),
              JitterStd := stddev (Samples st)\<rparr>
      else st\<lparr>P50 := timeout, P95 := timeout, JitterStd := timeout\<rparr>)"

definition ProbeCandidate_calls ::
  "(nat \<Rightarrow> trial) \<Rightarrow> Addr \<Rightarrow> int \<Rightarrow> Duration \<Rightarrow> int \<Rightarrow> CandidateStat \<times> nat" where
  "ProbeCandidate_calls env ip port timeout attempts =
     (let (st, calls) = probe_loop env 0 (nat attempts) (new_CandidateStat ip, 0)
      in (finish_stat timeout st, calls))"

definition ProbeCandidate ::
  "(nat \<Rightarrow> trial) \<Rightarrow> Addr \<Rightarrow> int \<Rightarrow> Duration \<Rightarrow> int \<Rightarrow> CandidateStat" where
  "ProbeCandidate env ip port timeout attempts =
     fst (ProbeCandidate_calls env ip port timeout attempts)"

text \<open>
  The aliasing of \<open>quantile\<close>, on a heap of backing arrays addressed by their index:
  \<open>append([]time.Duration(nil), samples...)\<close> allocates a new array holding a copy, and
  \<open>sort.Slice\<close> sorts that array in place.
\<close>

type_synonym heap = "Duration list list"

definition quantile_heap :: "heap \<Rightarrow> nat \<Rightarrow> real \<Rightarrow> Duration \<times> heap" where
  "quantile_heap h samples q =
     (if length (h ! samples) = 0 then (0, h)
      else
        let cp = length h;
            h1 = h @ [h ! samples];
            h2 = h1[cp := sort (h1 ! cp)]
        in (quantile_sorted (h2 ! cp) q, h2))"

text \<open>
  The specification's words for an intermediate quantile: the fractional index
  \<open>q * (n - 1)\<close> into the sorted sequence, its lower neighbour, and the value interpolated
  linearly between the two neighbouring order statistics.
\<close>

definition lower_index :: "Duration list \<Rightarrow> real \<Rightarrow> nat" where
  "lower_index cp q = nat \<lfloor>q * real (length cp - 1)\<rfloor>"

definition interpolated :: "Duration list \<Rightarrow> real \<Rightarrow> real" where
  "interpolated cp q =
     real_of_int (cp ! lower_index cp q) +
     (real_of_int (cp ! (lower_index cp q + 1)) - real_of_int (cp ! lower_index cp q)) *
     (q * real (length cp - 1) - real (lower_index cp q))"

section \<open>Example data\<close>

definition example_time :: Time where
  "example_time = \<lparr>Year = 2024, Month = 1, Day = 2, Hour = 3, Minute = 4, Second = 5\<rparr>"

definition example_fs :: FS where
  "example_fs =
     \<lparr>files = [''/etc/hosts'' \<mapsto> (''127.0.0.1 localhost'' @ [LF], 420)],
      write_errors = Map.empty, trace = []\<rparr>"

definition example_fs_readonly_dir :: FS where
  "example_fs_readonly_dir =
     \<lparr>files = [''/etc/hosts'' \<mapsto> (''127.0.0.1 localhost'' @ [LF], 420)],
      write_errors = [''/etc/hosts.bak.20240102_030405'' \<mapsto> ''permission denied''],
      trace = []\<rparr>"


section \<open>Resolving and ranking the candidates of one domain (package engine)\<close>

text \<open>A \<open>Candidate\<close> is the pair of its fields \<open>IP\<close> and \<open>ResolvedVia\<close>, in this order.\<close>

datatype Candidate = Candidate Addr string

text \<open>
  \<open>filterIPVersions\<close> writes the addresses it keeps into the array it reads: \<open>out\<close> is
  \<open>ips[:0]\<close>. The loop has the array, the index \<open>i\<close> it reads at and the length \<open>w\<close> of
  \<open>out\<close>.
\<close>

function filter_loop :: "Addr list \<Rightarrow> nat \<Rightarrow> nat \<Rightarrow> bool \<Rightarrow> bool \<Rightarrow> Addr list" where
  "filter_loop arr i w ipv4 ipv6 =
     (if i < length arr then
        let ip = arr ! i;
            (arr1, w1) = (if Is4 ip \<and> ipv4 then (arr[w := ip], w + 1) else (arr, w));
            (arr2, w2) = (if Is6 ip \<and> ipv6 then (arr1[w1 := ip], w1 + 1) else (arr1, w1))
        in filter_loop arr2 (i + 1) w2 ipv4 ipv6
      else take w arr)"
  by pat_completeness auto
termination
  by (relation "measure (\<lambda>(arr, i, w, ipv4, ipv6). length arr - i)")
    (auto split: if_splits)

definition filterIPVersions :: "Addr list \<Rightarrow> bool \<Rightarrow> bool \<Rightarrow> Addr list" where
  "filterIPVersions ips ipv4 ipv6 = filter_loop ips 0 0 ipv4 ipv6"

text \<open>
  The map \<open>seen\<close> is a list of pairs with distinct keys. \<open>addIPs\<close> adds the valid,
  specified addresses that are not yet keys.
\<close>

fun addIPs :: "(Addr \<times> string) list \<Rightarrow> string \<Rightarrow> Addr list \<Rightarrow> (Addr \<times> string) list" where
  "addIPs seen via [] = seen"
| "addIPs seen via (ip # ips) =
     addIPs
       (if IsValid ip \<and> \<not> IsUnspecified ip
        then (case map_of seen ip of None \<Rightarrow> seen @ [(ip, via)] | Some v \<Rightarrow> seen)
        else seen)
       via ips"

text \<open>
  The resolvers are the environment: \<open>sys\<close> is what \<open>lookupWithResolver\<close> returns for the
  default resolver, and \<open>srv i s\<close> what it returns for the server \<open>s\<close>, the \<open>i\<close>-th of the
  list (\<open>Inl\<close> the error's text).
\<close>

fun servers_loop ::
  "(nat \<Rightarrow> string \<Rightarrow> string + Addr list) \<Rightarrow> bool \<Rightarrow> bool \<Rightarrow> nat \<Rightarrow> string list \<Rightarrow>
   (Addr \<times> string) list \<Rightarrow> (Addr \<times> string) list" where
  "servers_loop srv ipv4 ipv6 i [] seen = seen"
| "servers_loop srv ipv4 ipv6 i (s0 # servers) seen =
     (let s = TrimSpace s0
      in if s = [] then servers_loop srv ipv4 ipv6 (i + 1) servers seen
         else case srv i s of
                Inl err \<Rightarrow> servers_loop srv ipv4 ipv6 (i + 1) servers seen
              | Inr ips \<Rightarrow>
                  servers_loop srv ipv4 ipv6 (i + 1) servers
                    (addIPs seen s (filterIPVersions ips ipv4 ipv6)))"

text \<open>
  \<open>sort.Slice\<close> by \<open>Less\<close> on keys that are distinct: the order of the result does not
  depend on the order in which the map is read, and insertion sort computes it.
\<close>

fun insert_by_IP :: "Candidate \<Rightarrow> Candidate list \<Rightarrow> Candidate list" where
  "insert_by_IP c [] = [c]"
| "insert_by_IP (Candidate ip via) (Candidate ip' via' # cs) =
     (if Less ip' ip then Candidate ip' via' # insert_by_IP (Candidate ip via) cs
      else Candidate ip via # Candidate ip' via' # cs)"

definition ResolveCandidates ::
  "(string + Addr list) \<Rightarrow> (nat \<Rightarrow> string \<Rightarrow> string + Addr list) \<Rightarrow> string \<Rightarrow> string list \<Rightarrow>
   bool \<Rightarrow> bool \<Rightarrow> Candidate list \<times> string option" where
  "ResolveCandidates sys srv domain servers ipv4 ipv6 =
     (let sysIPs = (case sys of Inl err \<Rightarrow> [] | Inr ips \<Rightarrow> ips);
          seen0 = addIPs [] ''system'' (filterIPVersions sysIPs ipv4 ipv6);
          seen = servers_loop srv ipv4 ipv6 0 servers seen0;
          out = foldr insert_by_IP (map (\<lambda>(ip, via). Candidate ip via) seen) []
      in (out, None))"

record DomainResult =
  Domain :: string
  Best :: CandidateStat
  Candidates :: "CandidateStat list"
  Err :: "string option"

text \<open>
  The environment of \<open>RunOneDomain\<close>: the two resolvers, what \<open>ctx.Err()\<close> returns before
  the \<open>k\<close>-th candidate is probed, and the trials of the \<open>k\<close>-th probe.
\<close>

record domain_env =
  sys_lookup :: "string + Addr list"
  srv_lookup :: "nat \<Rightarrow> string \<Rightarrow> string + Addr list"
  ctx_before :: "nat \<Rightarrow> string option"
  probe_trials :: "nat \<Rightarrow> nat \<Rightarrow> trial"

fun probe_all ::
  "domain_env \<Rightarrow> Config \<Rightarrow> nat \<Rightarrow> Candidate list \<Rightarrow> CandidateStat list \<Rightarrow>
   string + CandidateStat list" where
  "probe_all env cfg k [] stats = Inr stats"
| "probe_all env cfg k (Candidate ip via # candidates) stats =
     (case ctx_before env k of
        Some err \<Rightarrow> Inl err
      | None \<Rightarrow>
          let st = ProbeCandidate (probe_trials env k) ip (Port cfg) (Timeout cfg)
                     (Config.Attempts cfg);
              st' = st\<lparr>ResolvedVia := via\<rparr>
          in probe_all env cfg (k + 1) candidates (stats @ [st']))"

fun insert_better :: "CandidateStat \<Rightarrow> CandidateStat list \<Rightarrow> CandidateStat list" where
  "insert_better c [] = [c]"
| "insert_better c (d # ds) = (if better d c then d # insert_better c ds else c # d # ds)"

definition empty_DomainResult :: "string \<Rightarrow> DomainResult" where
  "empty_DomainResult domain =
     \<lparr>Domain = domain, Best = new_CandidateStat AddrZero, Candidates = [], Err = None\<rparr>"

definition RunOneDomain :: "domain_env \<Rightarrow> string \<Rightarrow> Config \<Rightarrow> DomainResult" where
  "RunOneDomain env domain cfg =
     (let res = empty_DomainResult domain
      in case ResolveCandidates (sys_lookup env) (srv_lookup env) domain (DNSServers cfg)
                (IPv4 cfg) (IPv6 cfg) of
           (candidates, Some err) \<Rightarrow> res\<lparr>Err := Some err\<rparr>
         | (candidates, None) \<Rightarrow>
             if length candidates = 0 then res\<lparr>Err := Some ''no candidate ip''\<rparr>
             else case probe_all env cfg 0 candidates [] of
                    Inl err \<Rightarrow> res\<lparr>Err := Some err\<rparr>
                  | Inr stats \<Rightarrow>
                      let sorted_stats = foldr insert_better stats []
                      in res\<lparr>Candidates := sorted_stats, Best := hd sorted_stats\<rparr>)"


section \<open>The scheduler (Run)\<close>

text \<open>
  \<open>Run\<close> starts \<open>Concurrency\<close> workers that receive from the unbuffered channel
  \<open>workCh\<close>, and sends the domains to it one by one, each send in a \<open>select\<close> with
  \<open>ctx.Done()\<close>. Its executions are the interleavings of the steps below, on a state that
  holds the domains not yet sent, whether the channel is closed, whether the context is
  cancelled, what each worker is doing, the results given to \<open>OnResult\<close> and the pairs
  given to \<open>OnProgress\<close> in their order, the counter \<open>done\<close>, the error that \<open>Run\<close> will
  return and, once it has returned, the error returned.
\<close>

datatype worker = Idle | Busy string | Exited

record Callbacks =
  OnResult_set :: bool
  OnProgress_set :: bool

record run_state =
  queue :: "string list"
  closed :: bool
  cancelled :: bool
  workers :: "worker list"
  emitted :: "DomainResult list"
  done_count :: nat
  progress :: "(nat \<times> nat) list"
  pending :: "string option"
  returned :: "string option option"

definition returned_at_once :: "string \<Rightarrow> run_state" where
  "returned_at_once err =
     \<lparr>queue = [], closed = False, cancelled = False, workers = [], emitted = [], done_count = 0,
      progress = [], pending = Some err, returned = Some (Some err)\<rparr>"

definition Run_start :: "Config \<Rightarrow> Callbacks \<Rightarrow> string list \<Rightarrow> run_state" where
  "Run_start cfg cb domains =
     (case validate cfg of
        Some err \<Rightarrow> returned_at_once err
      | None \<Rightarrow>
          if length domains = 0 then returned_at_once ''empty domain list''
          else
            \<lparr>queue = domains, closed = False, cancelled = False,
             workers = replicate (nat (Concurrency cfg)) Idle, emitted = [], done_count = 0,
             progress = (if OnProgress_set cb then [(0, length domains)] else []),
             pending = None, returned = None\<rparr>)"

text \<open>
  The steps: the context is cancelled; the \<open>select\<close> sends the next domain to a worker
  that is receiving; the \<open>select\<close> takes \<open>ctx.Done()\<close>, and the dispatcher closes the
  channel and will return \<open>ctx.Err()\<close>; the loop over the domains is over, and the
  dispatcher closes the channel; a worker runs \<open>RunOneDomain\<close> on its domain (in some
  environment), gives the result to \<open>OnResult\<close>, counts it and reports the progress; a
  worker finds the channel closed and exits; all workers have exited and \<open>Run\<close> returns.
\<close>

inductive Run_step ::
  "string \<Rightarrow> Config \<Rightarrow> Callbacks \<Rightarrow> string list \<Rightarrow> run_state \<Rightarrow> run_state \<Rightarrow> bool"
  for ctx_err :: string and cfg :: Config and cb :: Callbacks and domains :: "string list" where
  cancel: "Run_step ctx_err cfg cb domains s (s\<lparr>cancelled := True\<rparr>)"
| send:
    "returned s = None \<Longrightarrow> \<not> closed s \<Longrightarrow> queue s = d # q \<Longrightarrow>
     i < length (workers s) \<Longrightarrow> workers s ! i = Idle \<Longrightarrow>
     Run_step ctx_err cfg cb domains s (s\<lparr>queue := q, workers := (workers s)[i := Busy d]\<rparr>)"
| stop:
    "returned s = None \<Longrightarrow> \<not> closed s \<Longrightarrow> queue s \<noteq> [] \<Longrightarrow> cancelled s \<Longrightarrow>
     Run_step ctx_err cfg cb domains s (s\<lparr>closed := True, pending := Some ctx_err\<rparr>)"
| finish:
    "returned s = None \<Longrightarrow> \<not> closed s \<Longrightarrow> queue s = [] \<Longrightarrow>
     Run_step ctx_err cfg cb domains s (s\<lparr>closed := True\<rparr>)"
| work:
    "i < length (workers s) \<Longrightarrow> workers s ! i = Busy d \<Longrightarrow>
     Run_step ctx_err cfg cb domains s
       (s\<lparr>emitted := (if OnResult_set cb then emitted s @ [RunOneDomain env d cfg] else emitted s),
          done_count := done_count s + 1,
          progress := (if OnProgress_set cb
                       then progress s @ [(done_count s + 1, length domains)] else progress s),
          workers := (workers s)[i := Idle]\<rparr>)"
| exit:
    "closed s \<Longrightarrow> i < length (workers s) \<Longrightarrow> workers s ! i = Idle \<Longrightarrow>
     Run_step ctx_err cfg cb domains s (s\<lparr>workers := (workers s)[i := Exited]\<rparr>)"
| return:
    "returned s = None \<Longrightarrow> closed s \<Longrightarrow> \<forall>w\<in>set (workers s). w = Exited \<Longrightarrow>
     Run_step ctx_err cfg cb domains s (s\<lparr>returned := Some (pending s)\<rparr>)"

definition Run_reach ::
  "string \<Rightarrow> Config \<Rightarrow> Callbacks \<Rightarrow> string list \<Rightarrow> run_state \<Rightarrow> bool" where
  "Run_reach ctx_err cfg cb domains s \<longleftrightarrow>
     (Run_step ctx_err cfg cb domains)\<^sup>*\<^sup>* (Run_start cfg cb domains) s"

text \<open>The domains that the workers are busy with.\<close>

fun busy :: "worker list \<Rightarrow> string list" where
  "busy [] = []"
| "busy (Busy d # ws) = d # busy ws"
| "busy (w # ws) = busy ws"

text \<open>The invariant of the executions of \<open>Run\<close> that start with a valid configuration.\<close>

definition Run_inv :: "string \<Rightarrow> string list \<Rightarrow> run_state \<Rightarrow> bool" where
  "Run_inv ctx_err domains s \<longleftrightarrow>
     (\<exists>k\<le>length domains. queue s = drop k domains \<and>
        mset (map Domain (emitted s)) + mset (busy (workers s)) = mset (take k domains)) \<and>
     (returned s \<noteq> None \<longrightarrow>
        closed s \<and> (\<forall>w\<in>set (workers s). w = Exited) \<and> returned s = Some (pending s)) \<and>
     (closed s \<longrightarrow>
        (pending s = None \<and> queue s = []) \<or>
        (pending s = Some ctx_err \<and> queue s \<noteq> [] \<and> cancelled s)) \<and>
     (\<not> closed s \<longrightarrow> pending s = None)"

text \<open>
  Termination. Every step other than the cancellation of the context lowers the measure
  below: a domain waiting in the queue counts 2, a busy worker 2, an idle worker 1, the open
  channel 1 and the pending return 1. A valid configuration starts at least one worker,
  and no worker exits before the channel is closed.
\<close>

fun worker_weight :: "worker \<Rightarrow> nat" where
  "worker_weight Idle = 1"
| "worker_weight (Busy d) = 2"
| "worker_weight Exited = 0"

definition Run_measure :: "run_state \<Rightarrow> nat" where
  "Run_measure s =
     2 * length (queue s) + sum_list (map worker_weight (workers s)) +
     (if closed s then 0 else 1) + (if returned s = None then 1 else 0)"

definition Run_live :: "Config \<Rightarrow> run_state \<Rightarrow> bool" where
  "Run_live cfg s \<longleftrightarrow>
     length (workers s) = nat (Concurrency cfg) \<and> 0 < nat (Concurrency cfg) \<and>
     (\<not> closed s \<longrightarrow> Exited \<notin> set (workers s))"

definition example_cfg :: Config where
  "example_cfg =
     \<lparr>DNSServers = [], Port = 443, Timeout = 1000000000, Attempts = 3, Concurrency = 1,
      IPv4 = True, IPv6 = False\<rparr>"

definition example_cb :: Callbacks where
  "example_cb = \<lparr>OnResult_set = True, OnProgress_set = True\<rparr>"

definition example_cancelled_run :: run_state where
  "example_cancelled_run =
     \<lparr>queue = [''a.com''], closed = True, cancelled = True, workers = [Exited], emitted = [],
      done_count = 0, progress = [(0, 1)], pending = Some ''context canceled'',
      returned = Some (Some ''context canceled'')\<rparr>"


definition example_env_failing :: domain_env where
  "example_env_failing =
     \<lparr>sys_lookup = Inl ''no such host'', srv_lookup = (\<lambda>i s. Inl ''i/o timeout''),
      ctx_before = (\<lambda>k. None), probe_trials = (\<lambda>k i. (None, Inl ''connection refused''))\<rparr>"


definition example_done_run :: run_state where
  "example_done_run =
     \<lparr>queue = [], closed = True, cancelled = False, workers = [Exited],
      emitted = [RunOneDomain example_env_failing ''a.com'' example_cfg],
      done_count = 1, progress = [(0, 1), (1, 1)], pending = None, returned = Some None\<rparr>"


section \<open>The ranking comparator\<close>

lemma Less_irrefl: "\<not> Less a a"
  by (simp add: Less_def Compare_def)

lemma Less_trans: "Less a b \<Longrightarrow> Less b c \<Longrightarrow> Less a c"
  by (cases a; cases b; cases c) (auto simp: Less_def Compare_def split: if_splits)

lemma Less_total: "a \<noteq> b \<Longrightarrow> Less a b \<or> Less b a"
  by (cases a; cases b) (auto simp: Less_def Compare_def word_unat_eq_iff)

lemma Less_asym: "Less a b \<Longrightarrow> \<not> Less b a"
  using Less_trans Less_irrefl by blast

text \<open>
  C4. The comparator \<open>better\<close> (success rate descending, then p95, p50, jitter and address
  ascending) is a strict order: nothing ranks above itself, it is transitive on any three
  statistics, and two statistics with distinct addresses are always ranked one way or the
  other, never tied.
\<close>

theorem better_strict_total_order:
  "\<not> better a a \<and>
   (better a b \<and> better b c \<longrightarrow> better a c) \<and>
   (IP a \<noteq> IP b \<longrightarrow> better a b \<or> better b a) \<and>
   \<not> (better a b \<and> better b a)"
proof (intro conjI impI)
  show "\<not> better a a" by (simp add: better_def Less_irrefl)
  show "better a c" if "better a b \<and> better b c"
    using that Less_trans [of "IP a" "IP b" "IP c"]
    unfolding better_def Let_def by (auto split: if_splits)
  show "better a b \<or> better b a" if "IP a \<noteq> IP b"
    using that Less_total [of "IP a" "IP b"] unfolding better_def Let_def by auto
  show "\<not> (better a b \<and> better b a)"
    using Less_asym [of "IP a" "IP b"] unfolding better_def Let_def by auto
qed

section \<open>Statistics of one probe\<close>

lemma wrap_int64_id: "- (2 ^ 63) \<le> x \<Longrightarrow> x < 2 ^ 63 \<Longrightarrow> wrap_int64 x = x"
  by (simp add: wrap_int64_def)

lemma probe_loop_inv:
  "probe_loop env c k (st, c) = (st', c') \<Longrightarrow>
     Successes st' + Failures st' + int c = Successes st + Failures st + int c' \<and>
     c \<le> c' \<and> c' \<le> c + k \<and>
     Successes st \<le> Successes st' \<and> Failures st \<le> Failures st' \<and>
     int (length (Samples st')) - Successes st' = int (length (Samples st)) - Successes st \<and>
     (c' < c + k \<longrightarrow> (\<exists>e. fst (env c') = Some e \<and> LastError st' = e)) \<and>
     IP st' = IP st"
proof (induction k arbitrary: st c)
  case 0
  then show ?case by simp
next
  case (Suc k)
  show ?case
  proof (cases "fst (env c)")
    case (Some e)
    with Suc.prems show ?thesis by auto
  next
    case None
    show ?thesis
    proof (cases "snd (env c)")
      case (Inl e)
      with None Suc.prems
      have "probe_loop env (Suc c) k (st\<lparr>Failures := Failures st + 1, LastError := e\<rparr>, Suc c)
              = (st', c')"
        by simp
      from Suc.IH [OF this] show ?thesis
        by auto
    next
      case (Inr d)
      with None Suc.prems
      have "probe_loop env (Suc c) k
              (st\<lparr>Successes := Successes st + 1, Samples := Samples st @ [d]\<rparr>, Suc c) = (st', c')"
        by simp
      from Suc.IH [OF this] show ?thesis
        by auto
    qed
  qed
qed

lemma finish_stat_fields:
  "Successes (finish_stat t st) = Successes st"
  "Failures (finish_stat t st) = Failures st"
  "Samples (finish_stat t st) = Samples st"
  "LastError (finish_stat t st) = LastError st"
  "IP (finish_stat t st) = IP st"
  by (simp_all add: finish_stat_def)

text \<open>
  C8. For an attempt budget that a Go \<open>int\<close> can hold, the statistic returned by
  \<open>ProbeCandidate\<close> has successes + failures equal to the number of \<open>tcpPing\<close> calls made;
  that number is at most the budget, and when it is less the loop was stopped by a
  cancellation seen at the next iteration, whose error text is the last error (the
  attempts not made count as nothing). The success rate is successes over attempts made,
  and 0 when no attempt was made.
\<close>

theorem ProbeCandidate_counts:
  assumes "0 \<le> attempts" and "attempts < 2 ^ 63"
    and "ProbeCandidate_calls env ip port timeout attempts = (st, calls)"
  shows "Successes st + Failures st = int calls \<and>
         0 \<le> Successes st \<and> 0 \<le> Failures st \<and>
         int calls \<le> attempts \<and>
         (int calls < attempts \<longrightarrow> (\<exists>e. fst (env calls) = Some e \<and> LastError st = e)) \<and>
         Attempts st = int calls \<and>
         SuccessRate st = (if calls = 0 then 0 else real_of_int (Successes st) / real calls)"
proof -
  obtain st0 where loop: "probe_loop env 0 (nat attempts) (new_CandidateStat ip, 0) = (st0, calls)"
    and st: "st = finish_stat timeout st0"
    using assms(3) by (auto simp: ProbeCandidate_calls_def split: prod.splits)
  note inv = probe_loop_inv [OF loop]
  have sum: "Successes st + Failures st = int calls"
    using inv by (simp add: st finish_stat_fields new_CandidateStat_def)
  have nonneg: "0 \<le> Successes st" "0 \<le> Failures st"
    using inv by (simp_all add: st finish_stat_fields new_CandidateStat_def)
  have le: "int calls \<le> attempts"
    using inv assms(1) by linarith
  have cancel: "\<exists>e. fst (env calls) = Some e \<and> LastError st = e" if "int calls < attempts"
  proof -
    from that have "calls < 0 + nat attempts" by simp
    with inv show ?thesis by (simp add: st finish_stat_fields)
  qed
  have att: "Attempts st = int calls"
    using le assms(2) by (simp add: Attempts_def sum wrap_int64_id)
  have rate: "SuccessRate st = (if calls = 0 then 0 else real_of_int (Successes st) / real calls)"
    by (simp add: SuccessRate_def att)
  from sum nonneg le cancel att rate show ?thesis by blast
qed

theorem ProbeCandidate_counts_witness:
  "ProbeCandidate_calls
     (\<lambda>i. if i = 2 then (Some ''context canceled'', Inl [])
          else if i = 0 then (None, Inr 100) else (None, Inl ''connection refused''))
     (Addr4 1) 80 500 5
   = (\<lparr>IP = Addr4 1, Successes = 1, Failures = 1, Samples = [100], P50 = 100, P95 = 100,
       JitterStd = 0, LastError = ''context canceled'', ResolvedVia = []\<rparr>, 2) \<and>
   Attempts \<lparr>IP = Addr4 1, Successes = 1, Failures = 1, Samples = [100], P50 = 100, P95 = 100,
       JitterStd = 0, LastError = ''context canceled'', ResolvedVia = []\<rparr> = 2 \<and>
   SuccessRate \<lparr>IP = Addr4 1, Successes = 1, Failures = 1, Samples = [100], P50 = 100,
       P95 = 100, JitterStd = 0, LastError = ''context canceled'', ResolvedVia = []\<rparr> = 1 / 2"
proof -
  let ?env = "\<lambda>i::nat. if i = 2 then (Some ''context canceled'', Inl [])
          else if i = 0 then (None, Inr (100::int)) else (None, Inl ''connection refused'')"
  have run: "ProbeCandidate_calls ?env (Addr4 1) 80 500 5
     = (\<lparr>IP = Addr4 1, Successes = 1, Failures = 1, Samples = [100], P50 = 100, P95 = 100,
         JitterStd = 0, LastError = ''context canceled'', ResolvedVia = []\<rparr>, 2)"
    by (simp add: ProbeCandidate_calls_def new_CandidateStat_def finish_stat_def
        numeral_eq_Suc quantile_def quantile_sorted_def stddev_def trunc_Duration_def)
  from ProbeCandidate_counts [OF _ _ run] show ?thesis
    using run by simp
qed

text \<open>
  C5. A statistic returned by \<open>ProbeCandidate\<close> with no successful sample has p50, p95 and
  jitter equal to the per-attempt timeout, and it ranks behind every statistic that has at
  least one success and a positive attempt count.
\<close>

theorem zero_success_ranks_last:
  assumes "Samples (ProbeCandidate env ip port timeout attempts) = []"
  shows "P50 (ProbeCandidate env ip port timeout attempts) = timeout \<and>
         P95 (ProbeCandidate env ip port timeout attempts) = timeout \<and>
         JitterStd (ProbeCandidate env ip port timeout attempts) = timeout \<and>
         (\<forall>s. 1 \<le> Successes s \<and> 0 < Attempts s \<longrightarrow>
            better s (ProbeCandidate env ip port timeout attempts) \<and>
            \<not> better (ProbeCandidate env ip port timeout attempts) s)"
proof -
  let ?z = "ProbeCandidate env ip port timeout attempts"
  obtain st0 calls
    where loop: "probe_loop env 0 (nat attempts) (new_CandidateStat ip, 0) = (st0, calls)"
    by (cases "probe_loop env 0 (nat attempts) (new_CandidateStat ip, 0)")
  have z: "?z = finish_stat timeout st0"
    using loop by (simp add: ProbeCandidate_def ProbeCandidate_calls_def)
  have empty: "Samples st0 = []"
    using assms by (simp add: z finish_stat_fields)
  have fields: "P50 ?z = timeout" "P95 ?z = timeout" "JitterStd ?z = timeout"
    using empty by (simp_all add: z finish_stat_def)
  have "Successes st0 = 0"
    using probe_loop_inv [OF loop] empty by (simp add: new_CandidateStat_def)
  then have rate0: "SuccessRate ?z = 0"
    by (simp add: SuccessRate_def z finish_stat_fields)
  have "better s ?z \<and> \<not> better ?z s" if "1 \<le> Successes s \<and> 0 < Attempts s" for s
  proof -
    from that have "0 < SuccessRate s"
      by (simp add: SuccessRate_def)
    with rate0 show ?thesis
      by (simp add: better_def)
  qed
  with fields show ?thesis by blast
qed

theorem zero_success_ranks_last_witness:
  "Samples (ProbeCandidate (\<lambda>i. (None, Inl ''connection refused'')) (Addr4 1) 80 500 2) = [] \<and>
   P95 (ProbeCandidate (\<lambda>i. (None, Inl ''connection refused'')) (Addr4 1) 80 500 2) = 500 \<and>
   1 \<le> Successes \<lparr>IP = Addr4 2, Successes = 1, Failures = 1, Samples = [900], P50 = 900,
         P95 = 900, JitterStd = 0, LastError = ''timeout'', ResolvedVia = []\<rparr> \<and>
   0 < Attempts \<lparr>IP = Addr4 2, Successes = 1, Failures = 1, Samples = [900], P50 = 900,
         P95 = 900, JitterStd = 0, LastError = ''timeout'', ResolvedVia = []\<rparr> \<and>
   better \<lparr>IP = Addr4 2, Successes = 1, Failures = 1, Samples = [900], P50 = 900,
         P95 = 900, JitterStd = 0, LastError = ''timeout'', ResolvedVia = []\<rparr>
     (ProbeCandidate (\<lambda>i. (None, Inl ''connection refused'')) (Addr4 1) 80 500 2)"
proof -
  let ?env = "\<lambda>i::nat. (None :: string option, Inl ''connection refused'' :: string + Duration)"
  let ?s = "\<lparr>IP = Addr4 2, Successes = 1, Failures = 1, Samples = [900], P50 = 900,
         P95 = 900, JitterStd = 0, LastError = ''timeout'', ResolvedVia = []\<rparr>"
  have empty: "Samples (ProbeCandidate ?env (Addr4 1) 80 500 2) = []"
    by (simp add: ProbeCandidate_def ProbeCandidate_calls_def new_CandidateStat_def
        finish_stat_def numeral_eq_Suc)
  have s: "1 \<le> Successes ?s \<and> 0 < Attempts ?s"
    by (simp add: Attempts_def wrap_int64_def)
  from zero_success_ranks_last [OF empty] s empty show ?thesis
    by simp
qed

theorem better_strict_total_order_witness:
  "better \<lparr>IP = Addr4 9, Successes = 2, Failures = 0, Samples = [], P50 = 5, P95 = 7,
           JitterStd = 1, LastError = [], ResolvedVia = []\<rparr>
          \<lparr>IP = Addr4 3, Successes = 1, Failures = 1, Samples = [], P50 = 1, P95 = 1,
           JitterStd = 0, LastError = [], ResolvedVia = []\<rparr> \<and>
   better \<lparr>IP = Addr4 3, Successes = 1, Failures = 1, Samples = [], P50 = 1, P95 = 1,
           JitterStd = 0, LastError = [], ResolvedVia = []\<rparr>
          \<lparr>IP = Addr6 3 [], Successes = 1, Failures = 1, Samples = [], P50 = 1, P95 = 1,
           JitterStd = 0, LastError = [], ResolvedVia = []\<rparr> \<and>
   better \<lparr>IP = Addr4 9, Successes = 2, Failures = 0, Samples = [], P50 = 5, P95 = 7,
           JitterStd = 1, LastError = [], ResolvedVia = []\<rparr>
          \<lparr>IP = Addr6 3 [], Successes = 1, Failures = 1, Samples = [], P50 = 1, P95 = 1,
           JitterStd = 0, LastError = [], ResolvedVia = []\<rparr>"
proof -
  let ?a = "\<lparr>IP = Addr4 9, Successes = 2, Failures = 0, Samples = [], P50 = 5, P95 = 7,
           JitterStd = 1, LastError = [], ResolvedVia = []\<rparr>"
  let ?b = "\<lparr>IP = Addr4 3, Successes = 1, Failures = 1, Samples = [], P50 = 1, P95 = 1,
           JitterStd = 0, LastError = [], ResolvedVia = []\<rparr>"
  let ?c = "\<lparr>IP = Addr6 3 [], Successes = 1, Failures = 1, Samples = [], P50 = 1, P95 = 1,
           JitterStd = 0, LastError = [], ResolvedVia = []\<rparr>"
  have ab: "better ?a ?b"
    by (simp add: better_def SuccessRate_def Attempts_def wrap_int64_def)
  have bc: "better ?b ?c"
    by (simp add: better_def SuccessRate_def Attempts_def wrap_int64_def Less_def Compare_def)
  from better_strict_total_order [of ?a ?b ?c] ab bc show ?thesis
    by blast
qed

section \<open>The quantile function\<close>

lemma trunc_Duration_mono: "x \<le> y \<Longrightarrow> trunc_Duration x \<le> trunc_Duration y"
proof -
  assume xy: "x \<le> y"
  consider "0 \<le> x" | "x < 0" "y < 0" | "x < 0" "0 \<le> y" by linarith
  then show ?thesis
  proof cases
    case 1
    with xy show ?thesis by (simp add: trunc_Duration_def floor_mono)
  next
    case 2
    with xy show ?thesis by (simp add: trunc_Duration_def ceiling_mono)
  next
    case 3
    then have "\<lceil>x\<rceil> \<le> 0" and "0 \<le> \<lfloor>y\<rfloor>" by (simp_all add: ceiling_le_iff)
    then have "\<lceil>x\<rceil> \<le> \<lfloor>y\<rfloor>" by linarith
    with 3 show ?thesis by (simp add: trunc_Duration_def)
  qed
qed

lemma trunc_Duration_between:
  "real_of_int a \<le> x \<Longrightarrow> x \<le> real_of_int b \<Longrightarrow> a \<le> trunc_Duration x \<and> trunc_Duration x \<le> b"
  unfolding trunc_Duration_def
  by (auto simp: le_floor_iff ceiling_le_iff floor_le_iff le_ceiling_iff)

lemma interp_between:
  fixes a b :: int and f :: real
  assumes "a \<le> b" "0 \<le> f" "f \<le> 1"
  shows "real_of_int a \<le> real_of_int a + (real_of_int b - real_of_int a) * f"
    and "real_of_int a + (real_of_int b - real_of_int a) * f \<le> real_of_int b"
proof -
  have d: "0 \<le> real_of_int b - real_of_int a" using assms(1) by simp
  show "real_of_int a \<le> real_of_int a + (real_of_int b - real_of_int a) * f"
    using d assms(2) by simp
  have "(real_of_int b - real_of_int a) * f \<le> (real_of_int b - real_of_int a) * 1"
    using assms(3) d by (rule mult_left_mono)
  then show "real_of_int a + (real_of_int b - real_of_int a) * f \<le> real_of_int b" by simp
qed

lemma lower_index_less:
  assumes "2 \<le> length cp" "0 < q" "q < 1"
  shows "lower_index cp q + 1 < length cp"
proof -
  define m where "m = length cp - 1"
  have m: "0 < real m" using assms(1) by (simp add: m_def)
  have "q * real m < 1 * real m"
    using assms(3) m by (rule mult_strict_right_mono)
  then have "\<lfloor>q * real m\<rfloor> < int m"
    by (simp add: floor_less_iff)
  then have "nat \<lfloor>q * real m\<rfloor> < m"
    using m by linarith
  then have "lower_index cp q < length cp - 1"
    unfolding lower_index_def m_def .
  then show ?thesis by linarith
qed

lemma frac_range:
  assumes "0 < q"
  shows "0 \<le> q * real (length cp - 1) - real (lower_index cp q)"
    and "q * real (length cp - 1) - real (lower_index cp q) \<le> 1"
proof -
  have pos: "0 \<le> q * real (length cp - 1)" using assms by simp
  then have fl: "0 \<le> \<lfloor>q * real (length cp - 1)\<rfloor>" by simp
  then have eq: "real (lower_index cp q) = real_of_int \<lfloor>q * real (length cp - 1)\<rfloor>"
    by (simp add: lower_index_def)
  show "0 \<le> q * real (length cp - 1) - real (lower_index cp q)"
    unfolding eq by simp
  show "q * real (length cp - 1) - real (lower_index cp q) \<le> 1"
    unfolding eq by linarith
qed

lemma quantile_sorted_interp:
  assumes "2 \<le> length cp" "0 < q" "q < 1"
  shows "quantile_sorted cp q = trunc_Duration (interpolated cp q)"
proof -
  define pos where "pos = q * real (length cp - 1)"
  have "0 \<le> pos" using assms(2) by (simp add: pos_def)
  then have fl: "0 \<le> \<lfloor>pos\<rfloor>" by simp
  have "nat \<lfloor>pos\<rfloor> + 1 < length cp"
    using lower_index_less [OF assms] unfolding lower_index_def pos_def .
  then have guard: "\<not> \<lfloor>pos\<rfloor> \<ge> int (length cp) - 1"
    using fl by linarith
  have idx: "real_of_int \<lfloor>pos\<rfloor> = real (nat \<lfloor>pos\<rfloor>)"
    using fl by simp
  have "quantile_sorted cp q =
        trunc_Duration (real_of_int (cp ! nat \<lfloor>pos\<rfloor>) +
          (real_of_int (cp ! (nat \<lfloor>pos\<rfloor> + 1)) - real_of_int (cp ! nat \<lfloor>pos\<rfloor>)) *
          (pos - real_of_int \<lfloor>pos\<rfloor>))"
    unfolding quantile_sorted_def Let_def pos_def [symmetric]
    using assms(2,3) guard by (simp only: not_le [symmetric] if_False)
  then show ?thesis
    unfolding interpolated_def lower_index_def pos_def [symmetric] idx [symmetric] .
qed

lemma quantile_sorted_single:
  assumes "length cp = 1"
  shows "quantile_sorted cp q = cp ! 0"
  using assms by (simp add: quantile_sorted_def Let_def)

lemma quantile_sorted_neighbours:
  assumes "sorted cp" "2 \<le> length cp" "0 < q" "q < 1"
  shows "cp ! lower_index cp q \<le> quantile_sorted cp q \<and>
         quantile_sorted cp q \<le> cp ! (lower_index cp q + 1)"
proof -
  have lt: "lower_index cp q + 1 < length cp" using assms(2-4) by (rule lower_index_less)
  have ab: "cp ! lower_index cp q \<le> cp ! (lower_index cp q + 1)"
    using assms(1) lt by (simp add: sorted_nth_mono)
  note fr = frac_range [OF assms(3), of cp]
  have "real_of_int (cp ! lower_index cp q) \<le> interpolated cp q"
    and "interpolated cp q \<le> real_of_int (cp ! (lower_index cp q + 1))"
    unfolding interpolated_def using interp_between [OF ab fr] by simp_all
  then show ?thesis
    unfolding quantile_sorted_interp [OF assms(2-4)] by (rule trunc_Duration_between)
qed

lemma quantile_sorted_range:
  assumes "sorted cp" "cp \<noteq> []"
  shows "cp ! 0 \<le> quantile_sorted cp q \<and> quantile_sorted cp q \<le> cp ! (length cp - 1)"
proof -
  have first_last: "cp ! 0 \<le> cp ! (length cp - 1)"
    using assms by (simp add: sorted_nth_mono)
  consider "q \<le> 0" | "0 < q" "1 \<le> q" | "0 < q" "q < 1" "length cp = 1"
    | "0 < q" "q < 1" "2 \<le> length cp"
    using assms(2) by (cases cp) (auto simp: not_less Suc_le_eq, linarith)
  then show ?thesis
  proof cases
    case 1
    then show ?thesis using first_last by (simp add: quantile_sorted_def)
  next
    case 2
    then show ?thesis using first_last by (simp add: quantile_sorted_def)
  next
    case 3
    then show ?thesis by (simp add: quantile_sorted_single)
  next
    case 4
    have lt: "lower_index cp q + 1 < length cp" using 4 by (intro lower_index_less)
    have "cp ! 0 \<le> cp ! lower_index cp q"
      using assms(1) lt by (simp add: sorted_nth_mono)
    moreover have "cp ! (lower_index cp q + 1) \<le> cp ! (length cp - 1)"
      using assms(1) lt by (intro sorted_nth_mono) simp_all
    ultimately show ?thesis
      using quantile_sorted_neighbours [OF assms(1) 4(3) 4(1) 4(2)] by linarith
  qed
qed

lemma quantile_sorted_mono:
  assumes "sorted cp" "cp \<noteq> []" "q1 \<le> q2"
  shows "quantile_sorted cp q1 \<le> quantile_sorted cp q2"
proof -
  note range = quantile_sorted_range [OF assms(1,2)]
  consider "q1 \<le> 0" | "0 < q1" "1 \<le> q2" | "0 < q1" "q2 < 1" "length cp = 1"
    | "0 < q1" "q2 < 1" "2 \<le> length cp"
    using assms(2) by (cases cp) (auto simp: not_less Suc_le_eq, linarith)
  then show ?thesis
  proof cases
    case 1
    then have "quantile_sorted cp q1 = cp ! 0" by (simp add: quantile_sorted_def)
    then show ?thesis using range [of q2] by simp
  next
    case 2
    with assms(3) have "quantile_sorted cp q2 = cp ! (length cp - 1)"
      by (simp add: quantile_sorted_def)
    then show ?thesis using range [of q1] by simp
  next
    case 3
    then show ?thesis by (simp add: quantile_sorted_single)
  next
    case 4
    have q: "0 < q2" "q1 < 1" using 4 assms(3) by simp_all
    have le_idx: "lower_index cp q1 \<le> lower_index cp q2"
      unfolding lower_index_def using assms(3)
      by (intro nat_mono floor_mono mult_right_mono) simp_all
    show ?thesis
    proof (cases "lower_index cp q1 = lower_index cp q2")
      case True
      have lt: "lower_index cp q2 + 1 < length cp" using 4 q by (intro lower_index_less)
      have ab: "cp ! lower_index cp q2 \<le> cp ! (lower_index cp q2 + 1)"
        using assms(1) lt by (simp add: sorted_nth_mono)
      have "q1 * real (length cp - 1) \<le> q2 * real (length cp - 1)"
        using assms(3) by (intro mult_right_mono) simp_all
      then have "interpolated cp q1 \<le> interpolated cp q2"
        unfolding interpolated_def True using ab
        by (intro add_left_mono mult_left_mono) simp_all
      then show ?thesis
        unfolding quantile_sorted_interp [OF 4(3) 4(1) q(2)]
          quantile_sorted_interp [OF 4(3) q(1) 4(2)]
        by (rule trunc_Duration_mono)
    next
      case False
      with le_idx have less: "lower_index cp q1 + 1 \<le> lower_index cp q2" by simp
      have lt: "lower_index cp q2 + 1 < length cp" using 4 q by (intro lower_index_less)
      have "quantile_sorted cp q1 \<le> cp ! (lower_index cp q1 + 1)"
        using quantile_sorted_neighbours [OF assms(1) 4(3) 4(1) q(2)] by simp
      also have "\<dots> \<le> cp ! lower_index cp q2"
        using assms(1) less lt by (intro sorted_nth_mono) simp_all
      also have "\<dots> \<le> quantile_sorted cp q2"
        using quantile_sorted_neighbours [OF assms(1) 4(3) q(1) 4(2)] by simp
      finally show ?thesis .
    qed
  qed
qed

lemma sorted_first_Min:
  assumes "sorted xs" "xs \<noteq> []"
  shows "xs ! 0 = Min (set xs)"
proof -
  obtain y ys where xs: "xs = y # ys" using assms(2) by (cases xs) auto
  with assms(1) have "\<forall>z\<in>set xs. y \<le> z" by auto
  then have "Min (set xs) = y" by (intro Min_eqI) (auto simp: xs)
  then show ?thesis by (simp add: xs)
qed

lemma sorted_last_Max:
  assumes "sorted xs" "xs \<noteq> []"
  shows "xs ! (length xs - 1) = Max (set xs)"
proof -
  have "\<forall>z\<in>set xs. z \<le> xs ! (length xs - 1)"
  proof
    fix z assume "z \<in> set xs"
    then obtain i where "i < length xs" "xs ! i = z" by (auto simp: in_set_conv_nth)
    then show "z \<le> xs ! (length xs - 1)"
      using sorted_nth_mono [OF assms(1), of i "length xs - 1"] by auto
  qed
  moreover have "xs ! (length xs - 1) \<in> set xs" using assms(2) by simp
  ultimately have "Max (set xs) = xs ! (length xs - 1)" by (intro Max_eqI) simp_all
  then show ?thesis by simp
qed

lemma quantile_heap_result:
  assumes "a < length h"
  shows "fst (quantile_heap h a q) = quantile (h ! a) q"
    and "take (length h) (snd (quantile_heap h a q)) = h"
  by (simp_all add: quantile_heap_def quantile_def Let_def nth_append)

text \<open>
  C6. For a non-empty sample sequence, the quantile at 0 is the minimum and the quantile at
  1 is the maximum, the quantile does not decrease when \<open>q\<close> grows, an intermediate
  quantile of two or more samples is the linear interpolation between the two neighbouring
  order statistics of the sorted sequence (truncated to a duration, and lying between
  them), and the array holding the input is left as it was: only a fresh copy is sorted.
\<close>

theorem quantile_properties:
  assumes "samples \<noteq> []"
  shows "quantile samples 0 = Min (set samples) \<and>
         quantile samples 1 = Max (set samples) \<and>
         (\<forall>q1 q2. q1 \<le> q2 \<longrightarrow> quantile samples q1 \<le> quantile samples q2) \<and>
         (\<forall>q. 0 < q \<and> q < 1 \<and> 2 \<le> length samples \<longrightarrow>
            quantile samples q = trunc_Duration (interpolated (sort samples) q) \<and>
            lower_index (sort samples) q + 1 < length samples \<and>
            sort samples ! lower_index (sort samples) q \<le> quantile samples q \<and>
            quantile samples q \<le> sort samples ! (lower_index (sort samples) q + 1)) \<and>
         (\<forall>h a q. a < length h \<and> h ! a = samples \<longrightarrow>
            fst (quantile_heap h a q) = quantile samples q \<and>
            take (length h) (snd (quantile_heap h a q)) = h)"
proof -
  let ?cp = "sort samples"
  have "length ?cp \<noteq> 0" using assms by (simp only: length_sort length_0_conv not_False_eq_True)
  then have ne: "?cp \<noteq> []" by (simp only: length_0_conv not_False_eq_True)
  have cp: "sorted ?cp" "?cp \<noteq> []" "length ?cp = length samples" "set ?cp = set samples"
    using ne by simp_all
  have q: "quantile samples q = quantile_sorted ?cp q" for q
    using assms by (simp add: quantile_def)
  have "quantile samples 0 = ?cp ! 0"
    by (simp add: q quantile_sorted_def)
  then have lo: "quantile samples 0 = Min (set samples)"
    using sorted_first_Min [OF cp(1,2)] by (simp only: cp(4))
  have "quantile samples 1 = ?cp ! (length ?cp - 1)"
    by (simp add: q quantile_sorted_def)
  then have hi: "quantile samples 1 = Max (set samples)"
    using sorted_last_Max [OF cp(1,2)] by (simp only: cp(4))
  have mono: "\<forall>q1 q2. q1 \<le> q2 \<longrightarrow> quantile samples q1 \<le> quantile samples q2"
    unfolding q using quantile_sorted_mono [OF cp(1,2)] by blast
  have interp: "quantile samples q = trunc_Duration (interpolated ?cp q) \<and>
            lower_index ?cp q + 1 < length samples \<and>
            ?cp ! lower_index ?cp q \<le> quantile samples q \<and>
            quantile samples q \<le> ?cp ! (lower_index ?cp q + 1)"
    if "0 < q \<and> q < 1 \<and> 2 \<le> length samples" for q
  proof -
    from that have h: "2 \<le> length ?cp" "0 < q" "q < 1" by simp_all
    show ?thesis
      unfolding q
      using quantile_sorted_interp [OF h] lower_index_less [OF h]
        quantile_sorted_neighbours [OF cp(1) h]
      by (simp only: cp(3))
  qed
  have heap: "\<forall>h a q. a < length h \<and> h ! a = samples \<longrightarrow>
            fst (quantile_heap h a q) = quantile samples q \<and>
            take (length h) (snd (quantile_heap h a q)) = h"
    using quantile_heap_result by blast
  from lo hi mono interp heap show ?thesis by blast
qed

theorem quantile_properties_witness:
  "quantile [30, 10, 20, 40] 0 = 10 \<and> quantile [30, 10, 20, 40] 1 = 40 \<and>
   quantile [30, 10, 20, 40] (50 / 100) = 25 \<and> quantile [30, 10, 20, 40] (95 / 100) = 38 \<and>
   lower_index (sort [30, 10, 20, 40]) (95 / 100) = 2 \<and>
   quantile_heap [[30, 10, 20, 40]] 0 (95 / 100) = (38, [[30, 10, 20, 40], [10, 20, 30, 40]])"
proof -
  have ne: "[30, 10, 20, 40] \<noteq> ([] :: Duration list)" by simp
  have vals: "quantile [30, 10, 20, 40] (50 / 100) = 25" "quantile [30, 10, 20, 40] (95 / 100) = 38"
    by (simp_all add: quantile_def quantile_sorted_def trunc_Duration_def Let_def)
  have idx: "lower_index (sort [30, 10, 20, 40]) (95 / 100) = 2"
    by (simp add: lower_index_def)
  have hp: "quantile_heap [[30, 10, 20, 40]] 0 (95 / 100) = (38, [[30, 10, 20, 40], [10, 20, 30, 40]])"
    by (simp add: quantile_heap_def quantile_sorted_def trunc_Duration_def Let_def)
  from quantile_properties [OF ne] vals idx hp show ?thesis
    by simp
qed

section \<open>Lines, joins and newline normalisation\<close>

lemma Split_not_Nil [simp]: "Split s sep \<noteq> []"
  by (induction s) (auto split: list.splits)

lemma Split_Cons [simp]:
  "Split (c # s) sep =
     (if c = sep then [] # Split s sep else (c # hd (Split s sep)) # tl (Split s sep))"
  by (cases "Split s sep") (use Split_not_Nil [of s sep] in auto)

declare Split.simps(2) [simp del]

lemma Split_append: "Split (a @ sep # b) sep = Split a sep @ Split b sep"
  by (induction a) (auto simp: hd_append)

lemma Split_no_sep: "sep \<notin> set s \<Longrightarrow> Split s sep = [s]"
  by (induction s) auto

lemma Split_lines_no_sep: "l \<in> set (Split s sep) \<Longrightarrow> sep \<notin> set l"
proof (induction s arbitrary: l)
  case Nil
  then show ?case by simp
next
  case (Cons c s)
  obtain h t where ht: "Split s sep = h # t"
    using Split_not_Nil [of s sep] by (cases "Split s sep") auto
  show ?case
  proof (cases "c = sep")
    case True
    with Cons show ?thesis by auto
  next
    case False
    with Cons.prems ht have "l = c # h \<or> l \<in> set t" by simp
    then show ?thesis
      using Cons.IH [of h] Cons.IH [of l] ht False by auto
  qed
qed

lemma Split_lines_chars: "l \<in> set (Split s sep) \<Longrightarrow> set l \<subseteq> set s"
proof (induction s arbitrary: l)
  case Nil
  then show ?case by simp
next
  case (Cons c s)
  obtain h t where ht: "Split s sep = h # t"
    using Split_not_Nil [of s sep] by (cases "Split s sep") auto
  show ?case
  proof (cases "c = sep")
    case True
    with Cons show ?thesis by auto
  next
    case False
    with Cons.prems ht have "l = c # h \<or> l \<in> set t" by simp
    then show ?thesis
      using Cons.IH [of h] Cons.IH [of l] ht by auto
  qed
qed


lemma Split_Join:
  "ls \<noteq> [] \<Longrightarrow> \<forall>l\<in>set ls. sep \<notin> set l \<Longrightarrow> Split (Join ls sep) sep = ls"
proof (induction ls sep rule: Join.induct)
  case (1 sep)
  then show ?case by simp
next
  case (2 a sep)
  then show ?case by (simp add: Split_no_sep)
next
  case (3 a b elems sep)
  then show ?case by (simp add: Split_append Split_no_sep)
qed








declare strip_runes.simps [simp del] fields_loop.simps [simp del] ReplaceAll.simps [simp del]

lemma ReplaceAll_Nil [simp]: "ReplaceAll [] old new = []"
  by (simp add: ReplaceAll.simps)

lemma ReplaceAll_CR_Cons [simp]:
  "ReplaceAll (c # s) [CR] [LF] = (if c = CR then LF else c) # ReplaceAll s [CR] [LF]"
  by (subst ReplaceAll.simps) simp

lemma ReplaceAll_CRLF_single [simp]: "ReplaceAll [c] [CR, LF] [LF] = [c]"
  by (subst ReplaceAll.simps) simp

lemma ReplaceAll_CRLF_Cons [simp]:
  "ReplaceAll (c # d # s) [CR, LF] [LF] =
     (if c = CR \<and> d = LF then LF # ReplaceAll s [CR, LF] [LF]
      else c # ReplaceAll (d # s) [CR, LF] [LF])"
  by (subst ReplaceAll.simps) simp

lemma normalizeNewlines_nl: "normalizeNewlines s = nl s"
  unfolding normalizeNewlines_def
  by (induction s rule: nl.induct) simp_all


lemma nl_id: "CR \<notin> set s \<Longrightarrow> nl s = s"
  by (induction s rule: nl.induct) auto

lemma nl_append: "a = [] \<or> last a \<noteq> CR \<Longrightarrow> nl (a @ b) = nl a @ nl b"
proof (induction a rule: nl.induct)
  case 1
  show ?case by simp
next
  case (2 c)
  then show ?case by (cases b) simp_all
next
  case (3 c d s)
  then show ?case by (auto split: if_splits)
qed

lemma nl_last_LF: "s \<noteq> [] \<Longrightarrow> last s = LF \<Longrightarrow> nl s \<noteq> [] \<and> last (nl s) = LF"
  by (induction s rule: nl.induct) (auto split: if_splits)





lemma TrimSpace_markers:
  "TrimSpace beginMarker = beginMarker" "TrimSpace endMarker = endMarker" "TrimSpace [] = []"
  by code_simp+

lemma marker_facts:
  "beginMarker \<noteq> endMarker" "beginMarker \<noteq> []" "endMarker \<noteq> []"
  "LF \<notin> set beginMarker" "LF \<notin> set endMarker" "CR \<notin> set beginMarker" "CR \<notin> set endMarker"
  by (simp_all add: beginMarker_def endMarker_def)

section \<open>Merging the managed block\<close>


lemma mapping_body_end:
  "concat (map mapping_line ms) = [] \<or> last (concat (map mapping_line ms)) = LF"
proof (induction ms rule: rev_induct)
  case Nil
  show ?case by simp
next
  case (snoc m ms)
  obtain a b where m: "m = Mapping a b" by (cases m)
  show ?case
    using snoc by (auto simp: m Let_def)
qed

lemma strip_runes_chars: "set (strip_runes rs s) \<subseteq> set s"
proof (induction rs s rule: strip_runes.induct)
  case (1 rs s)
  show ?case
  proof (cases "leading_rune rs s = 0")
    case True
    then show ?thesis by (subst strip_runes.simps) simp
  next
    case False
    have "set (strip_runes rs (drop (leading_rune rs s) s)) \<subseteq> set (drop (leading_rune rs s) s)"
      using 1 False by simp
    also have "\<dots> \<subseteq> set s" by (rule set_drop_subset)
    finally show ?thesis using False by (subst strip_runes.simps) simp
  qed
qed

lemma TrimSpace_chars: "set (TrimSpace s) \<subseteq> set s"
proof -
  have "set (TrimSpace s) \<subseteq> set (rev (strip_runes space_runes s))"
    unfolding TrimSpace_def set_rev
    using strip_runes_chars [of "map rev space_runes" "rev (strip_runes space_runes s)"]
    by (simp only: set_rev)
  also have "\<dots> \<subseteq> set s" using strip_runes_chars by simp
  finally show ?thesis .
qed

lemma nl_chars: "set (nl s) \<subseteq> insert LF (set s)"
  by (induction s rule: nl.induct) auto

lemma mapping_body_chars:
  assumes "\<forall>m\<in>set ms. case m of Mapping ip d \<Rightarrow> c \<notin> set ip \<and> c \<notin> set d"
    and "c \<noteq> LF" "c \<noteq> CHR '' ''"
  shows "c \<notin> set (concat (map mapping_line ms))"
proof -
  have "c \<notin> set (mapping_line m)" if "m \<in> set ms" for m
  proof -
    obtain ip d where m: "m = Mapping ip d" by (cases m)
    with assms(1) that have "c \<notin> set ip" "c \<notin> set d" by auto
    then have "c \<notin> set (TrimSpace ip)" "c \<notin> set (TrimSpace d)"
      using TrimSpace_chars by blast+
    then show ?thesis using assms(2,3) by (simp add: m Let_def)
  qed
  then show ?thesis by auto
qed

lemma block_lines_body:
  "\<exists>bl. Split (nl (BuildManagedBlock ms)) LF = beginMarker # bl @ [endMarker, []] \<and>
        (\<forall>l\<in>set bl. set l \<subseteq> insert LF (set (concat (map mapping_line ms))))"
proof -
  define body where "body = concat (map mapping_line ms)"
  have body_end: "body = [] \<or> last body = LF"
    unfolding body_def by (rule mapping_body_end)
  have shape: "BuildManagedBlock ms = ((beginMarker @ [LF]) @ body) @ (endMarker @ [LF])"
    by (simp add: BuildManagedBlock_def body_def)
  have "last ((beginMarker @ [LF]) @ body) \<noteq> CR"
    using body_end by (cases "body = []") simp_all
  then have "nl (((beginMarker @ [LF]) @ body) @ (endMarker @ [LF]))
      = nl ((beginMarker @ [LF]) @ body) @ nl (endMarker @ [LF])"
    by (intro nl_append disjI2)
  then have "nl (BuildManagedBlock ms) = nl ((beginMarker @ [LF]) @ body) @ nl (endMarker @ [LF])"
    by (simp only: shape)
  also have "nl ((beginMarker @ [LF]) @ body) = nl (beginMarker @ [LF]) @ nl body"
    by (rule nl_append) simp
  also have "nl (beginMarker @ [LF]) = beginMarker @ [LF]"
    by (rule nl_id) (simp add: marker_facts)
  also have "nl (endMarker @ [LF]) = endMarker @ [LF]"
    by (rule nl_id) (simp add: marker_facts)
  finally have B: "nl (BuildManagedBlock ms) = beginMarker @ LF # (nl body @ endMarker @ [LF])"
    by simp
  have first: "Split (nl (BuildManagedBlock ms)) LF
      = beginMarker # Split (nl body @ endMarker @ [LF]) LF"
    unfolding B Split_append by (simp add: Split_no_sep marker_facts)
  have last2: "Split (endMarker @ [LF]) LF = [endMarker, []]"
    using Split_append [of endMarker LF "[]"] by (simp add: Split_no_sep marker_facts)
  show ?thesis
  proof (cases "nl body = []")
    case True
    then have "Split (nl (BuildManagedBlock ms)) LF = beginMarker # [] @ [endMarker, []]"
      using first last2 by simp
    then show ?thesis by (intro exI [of _ "[]"]) simp
  next
    case False
    then have "body \<noteq> []" by auto
    with body_end have "last (nl body) = LF"
      using nl_last_LF [of body] by simp
    with False obtain z where z: "nl body = z @ [LF]"
      by (metis append_butlast_last_id)
    have "Split (nl body @ endMarker @ [LF]) LF = Split z LF @ Split (endMarker @ [LF]) LF"
      unfolding z using Split_append [of z LF "endMarker @ [LF]"] by simp
    then have lines: "Split (nl (BuildManagedBlock ms)) LF = beginMarker # Split z LF @ [endMarker, []]"
      using first last2 by simp
    have "set l \<subseteq> insert LF (set body)" if "l \<in> set (Split z LF)" for l
    proof -
      have "set l \<subseteq> set z" using that by (rule Split_lines_chars)
      also have "\<dots> \<subseteq> set (nl body)" unfolding z by auto
      also have "\<dots> \<subseteq> insert LF (set body)" by (rule nl_chars)
      finally show ?thesis .
    qed
    with lines show ?thesis unfolding body_def by blast
  qed
qed






text \<open>
  The hypothesis of the theorem holds for every mapping sequence whose addresses and
  domains do not contain the character \<open>#\<close>.
\<close>

lemma plain_mappings_one_marker_each:
  assumes "\<forall>m\<in>set ms. case m of Mapping ip d \<Rightarrow> CHR ''#'' \<notin> set ip \<and> CHR ''#'' \<notin> set d"
  shows "marker_lines beginMarker (normalizeNewlines (BuildManagedBlock ms)) = 1 \<and>
         marker_lines endMarker (normalizeNewlines (BuildManagedBlock ms)) = 1"
proof -
  obtain bl where bl: "Split (nl (BuildManagedBlock ms)) LF = beginMarker # bl @ [endMarker, []]"
    and chars: "\<forall>l\<in>set bl. set l \<subseteq> insert LF (set (concat (map mapping_line ms)))"
    using block_lines_body by blast
  have "CHR ''#'' \<notin> set (concat (map mapping_line ms))"
    using assms by (rule mapping_body_chars) simp_all
  then have "CHR ''#'' \<notin> set l" if "l \<in> set bl" for l
    using chars that by auto
  then have nohash: "CHR ''#'' \<notin> set (TrimSpace l)" if "l \<in> set bl" for l
    using that TrimSpace_chars by blast
  have hash: "CHR ''#'' \<in> set beginMarker" "CHR ''#'' \<in> set endMarker"
    by (simp_all add: beginMarker_def endMarker_def)
  have "filter (\<lambda>l. TrimSpace l = beginMarker) bl = []"
       "filter (\<lambda>l. TrimSpace l = endMarker) bl = []"
    using nohash hash by (metis (mono_tags, lifting) filter_False)+
  then show ?thesis
    unfolding marker_lines_def normalizeNewlines_nl bl
    using marker_facts(1-3) by (simp add: TrimSpace_markers)
qed


text \<open>
  It also fails for a mapping that renders as a marker line: the second merge differs.
\<close>

lemma merge_not_idempotent_marker_mapping:
  "ApplyManagedBlock (ApplyManagedBlock [] (BuildManagedBlock [Mapping ''#'' ''ip-opt-gui end'']))
     (BuildManagedBlock [Mapping ''#'' ''ip-opt-gui end''])
   \<noteq> ApplyManagedBlock [] (BuildManagedBlock [Mapping ''#'' ''ip-opt-gui end''])"
  by code_simp


section \<open>Parsing domains\<close>









lemma pieces_not_Nil [simp]: "pieces p s \<noteq> []"
  by (induction s) (auto split: list.splits)

lemma hd_pieces_in [simp]: "hd (pieces p s) \<in> set (pieces p s)"
  by simp


declare pieces.simps(2) [simp del]


























































section \<open>Writing the hosts file with a backup\<close>

text \<open>
  C2. When the target can be read, \<open>WriteWithBackup\<close> returns the error of a failed
  backup write with the file system as it was (the target is not written); when it
  succeeds, the writes it has done are the backup of the content read, then the target;
  and whatever the outcome, the writes done are none, the backup alone, or the backup
  followed by the target.
\<close>

theorem backup_before_write:
  assumes "Read fs path = Inr orig"
  shows "(\<forall>err. os_WriteFile fs (backup_path now path) orig 420 = Inl err \<longrightarrow>
            WriteWithBackup fs now path mappings = (Inl err, fs)) \<and>
         (\<forall>backupPath newContent fs'.
            WriteWithBackup fs now path mappings = (Inr (backupPath, newContent), fs') \<longrightarrow>
            backupPath = backup_path now path \<and>
            newContent = ApplyManagedBlock orig (BuildManagedBlock mappings) \<and>
            trace fs' = trace fs @ [(backupPath, orig), (path, newContent)]) \<and>
         (\<forall>r fs'. WriteWithBackup fs now path mappings = (r, fs') \<longrightarrow>
            trace fs' = trace fs \<or>
            trace fs' = trace fs @ [(backup_path now path, orig)] \<or>
            trace fs' = trace fs @ [(backup_path now path, orig),
                                    (path, ApplyManagedBlock orig (BuildManagedBlock mappings))])"
  using assms
  by (auto simp: WriteWithBackup_def backupFile_def os_WriteFile_def Let_def
      split: sum.splits option.splits prod.splits)

theorem backup_before_write_witness:
  "Read example_fs_readonly_dir ''/etc/hosts'' = Inr (''127.0.0.1 localhost'' @ [LF]) \<and>
   WriteWithBackup example_fs_readonly_dir example_time ''/etc/hosts''
       [Mapping ''1.2.3.4'' ''example.com'']
     = (Inl ''permission denied'', example_fs_readonly_dir) \<and>
   Read example_fs ''/etc/hosts'' = Inr (''127.0.0.1 localhost'' @ [LF]) \<and>
   trace (snd (WriteWithBackup example_fs example_time ''/etc/hosts''
       [Mapping ''1.2.3.4'' ''example.com'']))
     = [(''/etc/hosts.bak.20240102_030405'', ''127.0.0.1 localhost'' @ [LF]),
        (''/etc/hosts'',
         ''127.0.0.1 localhost'' @ [LF] @ ''# ip-opt-gui begin'' @ [LF] @
         ''1.2.3.4 example.com'' @ [LF] @ ''# ip-opt-gui end'' @ [LF])]"
proof -
  let ?orig = "''127.0.0.1 localhost'' @ [LF]"
  let ?ms = "[Mapping ''1.2.3.4'' ''example.com'']"
  have bp: "backup_path example_time ''/etc/hosts'' = ''/etc/hosts.bak.20240102_030405''"
    by code_simp
  have new: "ApplyManagedBlock ?orig (BuildManagedBlock ?ms)
      = ''127.0.0.1 localhost'' @ [LF] @ ''# ip-opt-gui begin'' @ [LF] @
         ''1.2.3.4 example.com'' @ [LF] @ ''# ip-opt-gui end'' @ [LF]"
    by code_simp
  have read1: "Read example_fs_readonly_dir ''/etc/hosts'' = Inr ?orig"
    by (simp add: Read_def os_ReadFile_def example_fs_readonly_dir_def)
  have fail: "os_WriteFile example_fs_readonly_dir (backup_path example_time ''/etc/hosts'') ?orig 420
      = Inl ''permission denied''"
    unfolding bp by (simp add: os_WriteFile_def example_fs_readonly_dir_def)
  have read2: "Read example_fs ''/etc/hosts'' = Inr ?orig"
    by (simp add: Read_def os_ReadFile_def example_fs_def)
  have ok: "fst (WriteWithBackup example_fs example_time ''/etc/hosts'' ?ms)
      = Inr (backup_path example_time ''/etc/hosts'', ApplyManagedBlock ?orig (BuildManagedBlock ?ms))"
    using read2
    by (simp add: WriteWithBackup_def backupFile_def os_WriteFile_def Let_def example_fs_def
        split: prod.splits)
  then have run: "WriteWithBackup example_fs example_time ''/etc/hosts'' ?ms
      = (Inr (backup_path example_time ''/etc/hosts'', ApplyManagedBlock ?orig (BuildManagedBlock ?ms)),
         snd (WriteWithBackup example_fs example_time ''/etc/hosts'' ?ms))"
    by (simp add: prod_eq_iff)
  from backup_before_write [OF read1, of example_time ?ms] fail
  have first: "WriteWithBackup example_fs_readonly_dir example_time ''/etc/hosts'' ?ms
      = (Inl ''permission denied'', example_fs_readonly_dir)"
    by blast
  from backup_before_write [OF read2, of example_time ?ms] run
  have "trace (snd (WriteWithBackup example_fs example_time ''/etc/hosts'' ?ms))
      = trace example_fs @ [(backup_path example_time ''/etc/hosts'', ?orig),
          (''/etc/hosts'', ApplyManagedBlock ?orig (BuildManagedBlock ?ms))]"
    by blast
  then have second: "trace (snd (WriteWithBackup example_fs example_time ''/etc/hosts'' ?ms))
      = [(''/etc/hosts.bak.20240102_030405'', ?orig),
          (''/etc/hosts'', ''127.0.0.1 localhost'' @ [LF] @ ''# ip-opt-gui begin'' @ [LF] @
         ''1.2.3.4 example.com'' @ [LF] @ ''# ip-opt-gui end'' @ [LF])]"
    unfolding bp new by (simp add: example_fs_def)
  from read1 first read2 second show ?thesis by (intro conjI)
qed

section \<open>Cleaned paths\<close>

lemma Clean_render:
  "Clean path = clean_render (path \<noteq> [] \<and> hd path = CHR ''/'')
     (clean_elems (path \<noteq> [] \<and> hd path = CHR ''/'') [] (Split path (CHR ''/'')))"
  by (cases path) (simp_all add: Clean_def clean_render_def Let_def)


lemma clean_elems_append:
  "clean_elems r out (es @ fs) = clean_elems r (clean_elems r out es) fs"
  by (induction es arbitrary: out r) simp_all


lemma clean_stack_elems:
  assumes "clean_stack r out" "e \<in> set out"
  shows "e = ''..'' \<or> plain_elem e"
proof (cases r)
  case True
  with assms show ?thesis by (auto simp: clean_stack_def list_all_iff)
next
  case False
  have "set out = set (takeWhile (\<lambda>e. e = ''..'') out) \<union> set (dropWhile (\<lambda>e. e = ''..'') out)"
    by (metis set_append takeWhile_dropWhile_id)
  then consider "e \<in> set (takeWhile (\<lambda>e. e = ''..'') out)" | "e \<in> set (dropWhile (\<lambda>e. e = ''..'') out)"
    using assms(2) by blast
  then show ?thesis
  proof cases
    case 1
    then show ?thesis by (auto dest: set_takeWhileD)
  next
    case 2
    with assms(1) False show ?thesis by (auto simp: clean_stack_def list_all_iff)
  qed
qed


lemma clean_stack_rooted: "clean_stack True out \<Longrightarrow> e \<in> set out \<Longrightarrow> plain_elem e"
  by (auto simp: clean_stack_def list_all_iff)


lemma clean_stack_push_plain:
  assumes "clean_stack r out" "plain_elem e"
  shows "clean_stack r (out @ [e])"
proof (cases r)
  case True
  with assms show ?thesis by (simp add: clean_stack_def)
next
  case False
  have ne: "e \<noteq> ''..''" using assms(2) by (simp add: plain_elem_def)
  show ?thesis
  proof (cases "\<forall>x\<in>set out. x = ''..''")
    case True
    then have "dropWhile (\<lambda>e. e = ''..'') (out @ [e]) = [e]"
      using ne by (simp add: dropWhile_append)
    with False assms(2) show ?thesis by (simp add: clean_stack_def)
  next
    case all: False
    then have "dropWhile (\<lambda>e. e = ''..'') (out @ [e]) = dropWhile (\<lambda>e. e = ''..'') out @ [e]"
      by (auto simp: dropWhile_append)
    with False assms show ?thesis by (simp add: clean_stack_def)
  qed
qed


lemma clean_stack_all_dotdot:
  assumes "clean_stack False out" "out = [] \<or> last out = ''..''"
  shows "\<forall>x\<in>set out. x = ''..''"
proof (rule ccontr)
  assume "\<not> (\<forall>x\<in>set out. x = ''..'')"
  then have ne: "dropWhile (\<lambda>e. e = ''..'') out \<noteq> []"
    by (simp add: dropWhile_eq_Nil_conv)
  then have "out \<noteq> []" by auto
  have "last out = last (dropWhile (\<lambda>e. e = ''..'') out)"
    using ne by (metis last_appendR takeWhile_dropWhile_id)
  moreover have "last (dropWhile (\<lambda>e. e = ''..'') out) \<in> set (dropWhile (\<lambda>e. e = ''..'') out)"
    using ne by simp
  ultimately have "plain_elem (last out)"
    using assms(1) by (simp add: clean_stack_def list_all_iff)
  with assms(2) \<open>out \<noteq> []\<close> show False by (simp add: plain_elem_def)
qed


lemma clean_stack_push_dotdot:
  assumes "clean_stack False out" "out = [] \<or> last out = ''..''"
  shows "clean_stack False (out @ [''..''])"
proof -
  have "\<forall>x\<in>set (out @ [''..'']). x = ''..''"
    using clean_stack_all_dotdot [OF assms] by simp
  then have "dropWhile (\<lambda>e. e = ''..'') (out @ [''..'']) = []"
    by (simp only: dropWhile_eq_Nil_conv)
  then show ?thesis by (simp add: clean_stack_def)
qed


lemma set_dropWhile_butlast: "set (dropWhile P (butlast xs)) \<subseteq> set (dropWhile P xs)"
proof (induction xs)
  case Nil
  show ?case by simp
next
  case (Cons x xs)
  show ?case
  proof (cases "xs = []")
    case True
    then show ?thesis by simp
  next
    case False
    show ?thesis
    proof (cases "P x")
      case True
      with False Cons show ?thesis by simp
    next
      case px: False
      have "set (butlast xs) \<subseteq> set xs" by (auto dest: in_set_butlastD)
      with False px show ?thesis by auto
    qed
  qed
qed

lemma clean_stack_pop:
  assumes "clean_stack r out"
  shows "clean_stack r (butlast out)"
proof (cases r)
  case True
  have "set (butlast out) \<subseteq> set out" by (auto dest: in_set_butlastD)
  with assms True show ?thesis
    unfolding clean_stack_def list_all_iff by auto
next
  case False
  with assms show ?thesis
    unfolding clean_stack_def list_all_iff
    using set_dropWhile_butlast [of "\<lambda>e. e = ''..''" out] by auto
qed


lemma clean_elems_stack:
  assumes "clean_stack r out" "\<forall>e\<in>set es. CHR ''/'' \<notin> set e"
  shows "clean_stack r (clean_elems r out es)"
  using assms
proof (induction es arbitrary: out)
  case Nil
  then show ?case by simp
next
  case (Cons e es)
  have rest: "\<forall>e\<in>set es. CHR ''/'' \<notin> set e" using Cons.prems(2) by simp
  consider "e = [] \<or> e = ''.''" | "e = ''..''" "out \<noteq> [] \<and> last out \<noteq> ''..''"
    | "e = ''..''" "\<not> (out \<noteq> [] \<and> last out \<noteq> ''..'')" "\<not> r"
    | "e = ''..''" "\<not> (out \<noteq> [] \<and> last out \<noteq> ''..'')" "r"
    | "plain_elem e"
    using Cons.prems(2) by (auto simp: plain_elem_def)
  then show ?case
  proof cases
    case 1
    then show ?thesis using Cons.IH [OF Cons.prems(1) rest] by auto
  next
    case 2
    then show ?thesis using Cons.IH [OF clean_stack_pop [OF Cons.prems(1)] rest] by simp
  next
    case 3
    then have "clean_stack False (out @ [''..''])"
      using Cons.prems(1) by (intro clean_stack_push_dotdot) auto
    then show ?thesis using 3 Cons.IH [OF _ rest, of "out @ [''..'']"] by auto
  next
    case 4
    then show ?thesis using Cons.IH [OF Cons.prems(1) rest] by auto
  next
    case 5
    then have "clean_stack r (out @ [e])"
      using Cons.prems(1) by (intro clean_stack_push_plain)
    then show ?thesis using 5 Cons.IH [OF _ rest, of "out @ [e]"]
      by (simp add: plain_elem_def)
  qed
qed


lemma clean_elems_fixed:
  assumes "clean_stack r (acc @ out)"
  shows "clean_elems r acc out = acc @ out"
  using assms
proof (induction out arbitrary: acc)
  case Nil
  then show ?case by simp
next
  case (Cons e out)
  have stack: "clean_stack r ((acc @ [e]) @ out)" using Cons.prems by simp
  have "e = ''..'' \<or> plain_elem e"
    using Cons.prems by (rule clean_stack_elems) simp
  then show ?case
  proof
    assume dd: "e = ''..''"
    have nr: "\<not> r"
    proof
      assume r
      with Cons.prems have "plain_elem e" by (intro clean_stack_rooted [of "acc @ e # out"]) simp_all
      with dd show False by (simp add: plain_elem_def)
    qed
    have "\<forall>x\<in>set acc. x = ''..''"
    proof (rule ccontr)
      assume "\<not> (\<forall>x\<in>set acc. x = ''..'')"
      then have "dropWhile (\<lambda>e. e = ''..'') (acc @ e # out) = dropWhile (\<lambda>e. e = ''..'') acc @ e # out"
        by (auto simp: dropWhile_append)
      with Cons.prems nr have "plain_elem e" by (simp add: clean_stack_def)
      with dd show False by (simp add: plain_elem_def)
    qed
    then have "acc = [] \<or> last acc = ''..''" by (cases acc rule: rev_cases) auto
    then show ?thesis
      using dd nr Cons.IH [OF stack] by auto
  next
    assume "plain_elem e"
    then show ?thesis
      using Cons.IH [OF stack] by (simp add: plain_elem_def)
  qed
qed

lemma Join_snoc: "ls \<noteq> [] \<Longrightarrow> Join (ls @ [e]) sep = Join ls sep @ sep # e"
  by (induction ls sep rule: Join.induct) auto

lemma clean_stack_no_sep:
  assumes "clean_stack r out" "e \<in> set out"
  shows "e \<noteq> [] \<and> CHR ''/'' \<notin> set e"
  using clean_stack_elems [OF assms] by (auto simp: plain_elem_def)

lemma Join_hd:
  "ls \<noteq> [] \<Longrightarrow> hd ls \<noteq> [] \<Longrightarrow> Join ls sep \<noteq> [] \<and> hd (Join ls sep) = hd (hd ls)"
  by (induction ls sep rule: Join.induct) auto

text \<open>what Clean reads back from a rendered clean stack\<close>

lemma clean_render_read:
  assumes "clean_stack r st"
  shows "clean_render r st \<noteq> []"
    and "(hd (clean_render r st) = CHR ''/'') = r"
    and "clean_elems r [] (Split (clean_render r st) (CHR ''/'')) = st"
proof -
  have fixed: "clean_elems r [] st = st"
    using clean_elems_fixed [of r "[]" st] assms by simp
  have nosep: "\<forall>l\<in>set st. CHR ''/'' \<notin> set l"
    using clean_stack_no_sep [OF assms] by blast
  show "clean_render r st \<noteq> []"
    by (simp add: clean_render_def Let_def)
  show "(hd (clean_render r st) = CHR ''/'') = r"
  proof (cases r)
    case True
    then show ?thesis by (simp add: clean_render_def Let_def)
  next
    case False
    show ?thesis
    proof (cases "st = []")
      case True
      with False show ?thesis by (simp add: clean_render_def Let_def)
    next
      case ne: False
      then have "hd st \<in> set st" by simp
      then have h: "hd st \<noteq> []" "CHR ''/'' \<notin> set (hd st)"
        using clean_stack_no_sep [OF assms] by blast+
      then have "hd (hd st) \<noteq> CHR ''/''" by (cases "hd st") auto
      with Join_hd [OF ne h(1), of "CHR ''/''"] False show ?thesis
        by (simp add: clean_render_def Let_def)
    qed
  qed
  show "clean_elems r [] (Split (clean_render r st) (CHR ''/'')) = st"
  proof (cases "st = []")
    case True
    then show ?thesis by (cases r) (simp_all add: clean_render_def Let_def)
  next
    case ne: False
    then have sj: "Split (Join st (CHR ''/'')) (CHR ''/'') = st"
      using nosep by (rule Split_Join)
    have "hd st \<in> set st" using ne by simp
    then have "hd st \<noteq> []" using clean_stack_no_sep [OF assms] by blast
    then have jne: "Join st (CHR ''/'') \<noteq> []"
      using Join_hd [OF ne, of "CHR ''/''"] by simp
    show ?thesis
    proof (cases r)
      case True
      have "Split (CHR ''/'' # Join st (CHR ''/'')) (CHR ''/'') = [] # st"
        using sj by simp
      then show ?thesis using True fixed by (simp add: clean_render_def Let_def)
    next
      case False
      then show ?thesis using jne sj fixed by (simp add: clean_render_def Let_def)
    qed
  qed
qed

lemma Clean_stack:
  "\<exists>r st. clean_stack r st \<and> Clean path = clean_render r st"
proof -
  let ?r = "path \<noteq> [] \<and> hd path = CHR ''/''"
  have "clean_stack ?r []" by (simp add: clean_stack_def)
  moreover have "\<forall>e\<in>set (Split path (CHR ''/'')). CHR ''/'' \<notin> set e"
    using Split_lines_no_sep by blast
  ultimately have "clean_stack ?r (clean_elems ?r [] (Split path (CHR ''/'')))"
    by (rule clean_elems_stack)
  then show ?thesis using Clean_render by blast
qed

lemma Clean_clean_render:
  assumes "clean_stack r st"
  shows "Clean (clean_render r st) = clean_render r st"
  using clean_render_read [OF assms] by (simp add: Clean_render)

lemma Clean_idem: "Clean (Clean path) = Clean path"
  using Clean_stack [of path] Clean_clean_render by auto

text \<open>joining a plain name to a cleaned directory\<close>

lemma Clean_dir_name:
  assumes "clean_stack r st" "plain_elem n"
  shows "Clean (clean_render r st @ CHR ''/'' # n) = clean_render r (st @ [n])"
proof -
  note rd = clean_render_read [OF assms(1)]
  have n: "Split n (CHR ''/'') = [n]"
    using assms(2) by (simp add: Split_no_sep plain_elem_def)
  have "clean_elems r [] (Split (clean_render r st @ CHR ''/'' # n) (CHR ''/''))
      = clean_elems r (clean_elems r [] (Split (clean_render r st) (CHR ''/''))) [n]"
    by (simp only: Split_append n clean_elems_append)
  also have "\<dots> = st @ [n]"
    using assms(2) by (simp add: rd(3) plain_elem_def)
  finally show ?thesis
    using rd(1,2) by (simp add: Clean_render)
qed

lemma Clean_dir_slash:
  assumes "clean_stack r st"
  shows "Clean (clean_render r st @ ''/'') = clean_render r st"
proof -
  note rd = clean_render_read [OF assms(1)]
  have "clean_elems r [] (Split (clean_render r st @ CHR ''/'' # []) (CHR ''/''))
      = clean_elems r (clean_elems r [] (Split (clean_render r st) (CHR ''/''))) [[]]"
    by (simp only: Split_append Split.simps(1) clean_elems_append)
  also have "\<dots> = st"
    by (simp add: rd(3))
  finally show ?thesis
    using rd(1,2) by (simp add: Clean_render)
qed

lemma rev_dropWhile_suffix:
  assumes "\<forall>c\<in>set n. P c" "pre = [] \<or> \<not> P (last pre)"
  shows "rev (dropWhile P (rev (pre @ n))) = pre"
proof -
  have "dropWhile P (rev (pre @ n)) = dropWhile P (rev pre)"
    using assms(1) by (simp add: dropWhile_append)
  also have "\<dots> = rev pre"
    using assms(2) by (cases pre rule: rev_cases) auto
  finally show ?thesis by simp
qed

lemma rev_takeWhile_suffix:
  assumes "\<forall>c\<in>set n. P c" "pre = [] \<or> \<not> P (last pre)"
  shows "rev (takeWhile P (rev (pre @ n))) = n"
proof -
  have "takeWhile P (rev pre) = []"
    using assms(2) by (cases pre rule: rev_cases) auto
  then have "takeWhile P (rev (pre @ n)) = rev n"
    using assms(1) by (simp add: takeWhile_append)
  then show ?thesis by simp
qed

lemma Dir_Base_of_joined:
  assumes "clean_stack r st" "plain_elem n"
  shows "Dir (clean_render r (st @ [n])) = clean_render r st"
    and "Base (clean_render r (st @ [n])) = n"
proof -
  define pre where "pre = (if r then ''/'' else []) @ (if st = [] then [] else Join st (CHR ''/'') @ ''/'')"
  have n: "n \<noteq> []" "\<forall>c\<in>set n. c \<noteq> CHR ''/''"
    using assms(2) by (auto simp: plain_elem_def)
  have bp: "clean_render r (st @ [n]) = pre @ n"
    using n(1) by (cases "st = []") (simp_all add: clean_render_def Let_def pre_def Join_snoc)
  have pre_end: "pre = [] \<or> \<not> (last pre \<noteq> CHR ''/'')"
    by (simp add: pre_def)
  have "Dir (pre @ n) = Clean pre"
    unfolding Dir_def using rev_dropWhile_suffix [OF n(2) pre_end] by simp
  also have "Clean pre = clean_render r st"
  proof (cases "st = []")
    case True
    then show ?thesis
      by (cases r) (simp_all add: pre_def Clean_def clean_render_def Let_def)
  next
    case False
    have "hd st \<in> set st" using False by simp
    then have "hd st \<noteq> []" using clean_stack_no_sep [OF assms(1)] by blast
    then have "Join st (CHR ''/'') \<noteq> []"
      using Join_hd [OF False, of "CHR ''/''"] by simp
    then have "pre = clean_render r st @ ''/''"
      using False by (simp add: pre_def clean_render_def Let_def)
    then show ?thesis using Clean_dir_slash [OF assms(1)] by simp
  qed
  finally show "Dir (clean_render r (st @ [n])) = clean_render r st"
    unfolding bp .
  have ne: "pre @ n \<noteq> []" using n(1) by simp
  have last_n: "last (pre @ n) \<noteq> CHR ''/''"
    using n by (cases n rule: rev_cases) auto
  have p1: "rev (dropWhile (\<lambda>c. c = CHR ''/'') (rev (pre @ n))) = pre @ n"
    using ne last_n by (cases "pre @ n" rule: rev_cases) auto
  have p2: "rev (takeWhile (\<lambda>c. c \<noteq> CHR ''/'') (rev (pre @ n))) = n"
    using rev_takeWhile_suffix [OF n(2) pre_end] .
  have "Base (pre @ n) = (if pre @ n = [] then ''.'' else if n = [] then ''/'' else n)"
    unfolding Base_def Let_def p1 p2 ..
  then show "Base (clean_render r (st @ [n])) = n"
    unfolding bp using n(1) ne by (simp only: if_False)
qed

lemma Base_no_sep: "Base path \<noteq> ''/'' \<Longrightarrow> CHR ''/'' \<notin> set (Base path)"
proof -
  assume ne: "Base path \<noteq> ''/''"
  show ?thesis
  proof (cases "path = []")
    case True
    then show ?thesis by (simp add: Base_def)
  next
    case False
    define p2 where "p2 = rev (takeWhile (\<lambda>c. c \<noteq> CHR ''/'')
        (rev (rev (dropWhile (\<lambda>c. c = CHR ''/'') (rev path)))))"
    have "CHR ''/'' \<notin> set p2"
      unfolding p2_def by (auto dest: set_takeWhileD)
    moreover have "Base path = (if p2 = [] then ''/'' else p2)"
      using False by (simp add: Base_def Let_def p2_def)
    ultimately show ?thesis using ne by (auto split: if_splits)
  qed
qed

lemma Base_not_Nil: "Base path \<noteq> []"
  by (simp add: Base_def Let_def)

section \<open>Time stamps\<close>

declare digits.simps [simp del]

lemma digit_char: "d < 10 \<Longrightarrow> is_digit (''0123456789'' ! d)"
proof -
  assume d: "d < 10"
  have "list_all is_digit ''0123456789''"
    by (simp add: is_digit_def less_eq_char_def)
  then have "\<forall>i<length ''0123456789''. is_digit (''0123456789'' ! i)"
    by (simp only: list_all_length)
  with d show ?thesis by simp
qed

lemma digits_chars: "list_all is_digit (digits n)"
proof (induction n rule: digits.induct)
  case (1 n)
  show ?case
  proof (cases "n < 10")
    case True
    then show ?thesis by (subst digits.simps) (simp add: digit_char)
  next
    case False
    then show ?thesis using 1 by (subst digits.simps) (simp add: digit_char)
  qed
qed

lemma digits_length: "0 < k \<Longrightarrow> n < 10 ^ k \<Longrightarrow> length (digits n) \<le> k"
proof (induction k arbitrary: n)
  case 0
  then show ?case by simp
next
  case (Suc k)
  show ?case
  proof (cases "n < 10")
    case True
    then show ?thesis by (subst digits.simps) simp
  next
    case False
    with Suc.prems have "0 < k" by (cases k) auto
    moreover have "n div 10 < 10 ^ k" using Suc.prems by (simp add: less_mult_imp_div_less mult.commute)
    ultimately have "length (digits (n div 10)) \<le> k" by (rule Suc.IH)
    with False show ?thesis by (subst digits.simps) simp
  qed
qed

lemma digits_not_Nil: "digits n \<noteq> []"
  by (subst digits.simps) simp

lemma appendInt_fixed:
  assumes "0 < w" "x < 10 ^ w"
  shows "length (appendInt x w) = w" and "list_all is_digit (appendInt x w)"
proof -
  have "length (digits x) \<le> w" using assms by (rule digits_length)
  then show "length (appendInt x w) = w" by (simp add: appendInt_def)
  have "is_digit (CHR ''0'')" using digit_char [of 0] by simp
  then have "list_all is_digit (replicate (w - length (digits x)) (CHR ''0''))"
    by (simp add: list_all_iff)
  then show "list_all is_digit (appendInt x w)"
    by (simp add: appendInt_def digits_chars)
qed

lemma Format_shape:
  assumes "valid_time t"
  shows "length (Format_20060102_150405 t) = 15"
    and "list_all is_digit (take 8 (Format_20060102_150405 t))"
    and "Format_20060102_150405 t ! 8 = CHR ''_''"
    and "list_all is_digit (drop 9 (Format_20060102_150405 t))"
    and "CHR ''/'' \<notin> set (Format_20060102_150405 t)"
proof -
  have y: "length (appendInt (Year t) 4) = 4" "list_all is_digit (appendInt (Year t) 4)"
    using assms by (simp_all add: appendInt_fixed valid_time_def)
  have mo: "length (appendInt (Month t) 2) = 2" "list_all is_digit (appendInt (Month t) 2)"
    using assms by (simp_all add: appendInt_fixed valid_time_def)
  have d: "length (appendInt (Day t) 2) = 2" "list_all is_digit (appendInt (Day t) 2)"
    using assms by (simp_all add: appendInt_fixed valid_time_def)
  have h: "length (appendInt (Hour t) 2) = 2" "list_all is_digit (appendInt (Hour t) 2)"
    using assms by (simp_all add: appendInt_fixed valid_time_def)
  have mi: "length (appendInt (Minute t) 2) = 2" "list_all is_digit (appendInt (Minute t) 2)"
    using assms by (simp_all add: appendInt_fixed valid_time_def)
  have s: "length (appendInt (Second t) 2) = 2" "list_all is_digit (appendInt (Second t) 2)"
    using assms by (simp_all add: appendInt_fixed valid_time_def)
  define date where "date = appendInt (Year t) 4 @ appendInt (Month t) 2 @ appendInt (Day t) 2"
  define clock where "clock = appendInt (Hour t) 2 @ appendInt (Minute t) 2 @ appendInt (Second t) 2"
  have date: "length date = 8" "list_all is_digit date"
    using y mo d by (simp_all add: date_def)
  have clock: "length clock = 6" "list_all is_digit clock"
    using h mi s by (simp_all add: clock_def)
  have f: "Format_20060102_150405 t = date @ CHR ''_'' # clock"
    by (simp add: Format_20060102_150405_def date_def clock_def)
  show "length (Format_20060102_150405 t) = 15" using date clock by (simp add: f)
  show "list_all is_digit (take 8 (Format_20060102_150405 t))" using date by (simp add: f)
  show "Format_20060102_150405 t ! 8 = CHR ''_''" using date by (simp add: f nth_append)
  show "list_all is_digit (drop 9 (Format_20060102_150405 t))" using date clock by (simp add: f)
  have "\<not> is_digit (CHR ''/'')" by (simp add: is_digit_def less_eq_char_def)
  then show "CHR ''/'' \<notin> set (Format_20060102_150405 t)"
    using date(2) clock(2) by (auto simp: f list_all_iff)
qed

section \<open>The backup file\<close>

lemma backup_path_shape:
  assumes "valid_time now" "Base path \<noteq> ''/''"
  shows "Dir (backup_path now path) = Dir path"
    and "Base (backup_path now path) = Base path @ ''.bak.'' @ Format_20060102_150405 now"
proof -
  define name where "name = Base path @ ''.bak.'' @ Format_20060102_150405 now"
  have "CHR ''/'' \<notin> set name"
    using Base_no_sep [OF assms(2)] Format_shape(5) [OF assms(1)] by (simp add: name_def)
  moreover have "5 \<le> length name" by (simp add: name_def)
  then have "name \<noteq> []" "name \<noteq> ''.''" "name \<noteq> ''..''" by auto
  ultimately have plain: "plain_elem name" by (simp add: plain_elem_def)
  obtain r st where st: "clean_stack r st" and dir: "Dir path = clean_render r st"
    unfolding Dir_def using Clean_stack by blast
  have ne: "Dir path \<noteq> []"
    unfolding dir using clean_render_read(1) [OF st] .
  then have "backup_path now path = Clean (Dir path @ CHR ''/'' # name)"
    by (simp add: backup_path_def Let_def filepath_Join_def name_def)
  then have bp: "backup_path now path = clean_render r (st @ [name])"
    unfolding dir using Clean_dir_name [OF st plain] by simp
  show "Dir (backup_path now path) = Dir path"
    unfolding bp dir using st plain by (rule Dir_Base_of_joined)
  show "Base (backup_path now path) = Base path @ ''.bak.'' @ Format_20060102_150405 now"
    unfolding bp name_def [symmetric] using st plain by (rule Dir_Base_of_joined)
qed

lemma stamped_name:
  assumes "valid_time now"
  shows "stamped_backup_name original (original @ ''.bak.'' @ Format_20060102_150405 now)"
  using Format_shape(1-4) [OF assms] by (simp add: stamped_backup_name_def Let_def)

text \<open>
  C9 (as amended). For a valid time and a path that names a file (its base is not the
  root), the backup that \<open>backupFile\<close> creates is in the directory of the target, holds
  the content given, and its name is the target's name followed by \<open>.bak.\<close> and a stamp
  of eight digits, an underscore and six digits; after a successful \<open>WriteWithBackup\<close>
  the backup holds the content that the target had before.
\<close>

theorem backup_file_properties:
  assumes "valid_time now" and "Base path \<noteq> ''/''"
  shows "(\<forall>content backup fs1.
            backupFile fs now path content = (Inr backup, fs1) \<longrightarrow>
            Dir backup = Dir path \<and>
            map_option fst (files fs1 backup) = Some content \<and>
            stamped_backup_name (Base path) (Base backup)) \<and>
         (\<forall>orig backup newContent fs2.
            Read fs path = Inr orig \<and>
            WriteWithBackup fs now path mappings = (Inr (backup, newContent), fs2) \<longrightarrow>
            Dir backup = Dir path \<and>
            map_option fst (files fs2 backup) = Some orig \<and>
            stamped_backup_name (Base path) (Base backup))"
proof -
  note shape = backup_path_shape [OF assms]
  have stamp: "stamped_backup_name (Base path) (Base (backup_path now path))"
    unfolding shape(2) using assms(1) by (rule stamped_name)
  have differ: "backup_path now path \<noteq> path"
  proof
    assume "backup_path now path = path"
    then have "Base path = Base path @ ''.bak.'' @ Format_20060102_150405 now"
      using shape(2) by simp
    then show False by simp
  qed
  have one: "Dir backup = Dir path \<and> map_option fst (files fs1 backup) = Some content \<and>
        stamped_backup_name (Base path) (Base backup)"
    if "backupFile fs now path content = (Inr backup, fs1)" for content backup fs1
  proof -
    from that have "backup = backup_path now path"
      and "map_option fst (files fs1 backup) = Some content"
      by (auto simp: backupFile_def os_WriteFile_def Let_def split: option.splits)
    with shape(1) stamp show ?thesis by simp
  qed
  have two: "Dir backup = Dir path \<and> map_option fst (files fs2 backup) = Some orig \<and>
        stamped_backup_name (Base path) (Base backup)"
    if "Read fs path = Inr orig \<and>
        WriteWithBackup fs now path mappings = (Inr (backup, newContent), fs2)"
    for orig backup newContent fs2
  proof -
    from that differ have "backup = backup_path now path"
      and "map_option fst (files fs2 backup) = Some orig"
      by (auto simp: WriteWithBackup_def backupFile_def os_WriteFile_def Let_def
          split: option.splits sum.splits)
    with shape(1) stamp show ?thesis by simp
  qed
  from one two show ?thesis by blast
qed

text \<open>
  The claim as the specification states it fails on the name: the stamp has an underscore
  between the date and the time of day, so it is not a run of fourteen digits.
\<close>

theorem backup_name_counterexample:
  "fst (backupFile example_fs example_time ''/etc/hosts'' (''127.0.0.1 localhost'' @ [LF]))
     = Inr ''/etc/hosts.bak.20240102_030405'' \<and>
   Base ''/etc/hosts.bak.20240102_030405'' = ''hosts.bak.20240102_030405'' \<and>
   \<not> spec_backup_name (Base ''/etc/hosts'') ''hosts.bak.20240102_030405''"
proof -
  have bp: "backup_path example_time ''/etc/hosts'' = ''/etc/hosts.bak.20240102_030405''"
    by code_simp
  have "fst (backupFile example_fs example_time ''/etc/hosts'' (''127.0.0.1 localhost'' @ [LF]))
     = Inr ''/etc/hosts.bak.20240102_030405''"
    by (simp add: backupFile_def os_WriteFile_def Let_def bp example_fs_def)
  moreover have "Base ''/etc/hosts.bak.20240102_030405'' = ''hosts.bak.20240102_030405''"
    by code_simp
  moreover have "\<not> spec_backup_name (Base ''/etc/hosts'') ''hosts.bak.20240102_030405''"
    by code_simp
  ultimately show ?thesis by (intro conjI)
qed

theorem backup_file_properties_witness:
  "valid_time example_time \<and> Base ''/etc/hosts'' \<noteq> ''/'' \<and>
   fst (backupFile example_fs example_time ''/etc/hosts'' (''127.0.0.1 localhost'' @ [LF]))
     = Inr ''/etc/hosts.bak.20240102_030405'' \<and>
   Dir ''/etc/hosts.bak.20240102_030405'' = Dir ''/etc/hosts'' \<and>
   stamped_backup_name (Base ''/etc/hosts'') (Base ''/etc/hosts.bak.20240102_030405'')"
proof -
  let ?content = "''127.0.0.1 localhost'' @ [LF]"
  have vt: "valid_time example_time"
    by (simp add: valid_time_def example_time_def)
  have base: "Base ''/etc/hosts'' \<noteq> ''/''"
    by code_simp
  have bp: "backup_path example_time ''/etc/hosts'' = ''/etc/hosts.bak.20240102_030405''"
    by code_simp
  have run: "fst (backupFile example_fs example_time ''/etc/hosts'' ?content)
     = Inr ''/etc/hosts.bak.20240102_030405''"
    by (simp add: backupFile_def os_WriteFile_def Let_def bp example_fs_def)
  then have "backupFile example_fs example_time ''/etc/hosts'' ?content
     = (Inr ''/etc/hosts.bak.20240102_030405'',
        snd (backupFile example_fs example_time ''/etc/hosts'' ?content))"
    by (simp add: prod_eq_iff)
  with backup_file_properties [OF vt base, of example_fs "[]"]
  have "Dir ''/etc/hosts.bak.20240102_030405'' = Dir ''/etc/hosts'' \<and>
    stamped_backup_name (Base ''/etc/hosts'') (Base ''/etc/hosts.bak.20240102_030405'')"
    by blast
  with vt base run show ?thesis by (intro conjI) simp_all
qed

section \<open>The executions of the scheduler\<close>

lemma Domain_RunOneDomain [simp]: "Domain (RunOneDomain env d cfg) = d"
  by (simp add: RunOneDomain_def empty_DomainResult_def Let_def split: prod.splits option.splits sum.splits)

lemma busy_update_Busy:
  "i < length ws \<Longrightarrow> ws ! i = Idle \<Longrightarrow> mset (busy (ws[i := Busy d])) = mset (busy ws) + {#d#}"
proof (induction ws arbitrary: i)
  case Nil
  then show ?case by simp
next
  case (Cons w ws)
  show ?case
  proof (cases i)
    case 0
    with Cons.prems show ?thesis by simp
  next
    case (Suc j)
    with Cons show ?thesis by (cases w) simp_all
  qed
qed

lemma busy_update_Idle:
  "i < length ws \<Longrightarrow> ws ! i = Busy d \<Longrightarrow> mset (busy (ws[i := Idle])) + {#d#} = mset (busy ws)"
proof (induction ws arbitrary: i)
  case Nil
  then show ?case by simp
next
  case (Cons w ws)
  show ?case
  proof (cases i)
    case 0
    with Cons.prems show ?thesis by simp
  next
    case (Suc j)
    with Cons show ?thesis by (cases w) simp_all
  qed
qed

lemma busy_update_Exited:
  "i < length ws \<Longrightarrow> ws ! i = Idle \<Longrightarrow> busy (ws[i := Exited]) = busy ws"
proof (induction ws arbitrary: i)
  case Nil
  then show ?case by simp
next
  case (Cons w ws)
  show ?case
  proof (cases i)
    case 0
    with Cons.prems show ?thesis by simp
  next
    case (Suc j)
    with Cons show ?thesis by (cases w) simp_all
  qed
qed

lemma busy_all_Exited: "\<forall>w\<in>set ws. w = Exited \<Longrightarrow> busy ws = []"
  by (induction ws) auto

lemma busy_replicate_Idle: "busy (replicate n Idle) = []"
  by (induction n) auto

lemma Run_inv_start:
  assumes "validate cfg = None" "domains \<noteq> []"
  shows "Run_inv ctx_err domains (Run_start cfg cb domains)"
  using assms
  by (auto simp: Run_inv_def Run_start_def busy_replicate_Idle intro!: exI [of _ 0])

lemma Run_inv_step:
  assumes "OnResult_set cb" "Run_inv ctx_err domains s" "Run_step ctx_err cfg cb domains s s'"
  shows "Run_inv ctx_err domains s'"
  using assms(3)
proof cases
  case cancel
  with assms(2) show ?thesis by (auto simp: Run_inv_def)
next
  case (send d q i)
  from assms(2) obtain k where k: "k \<le> length domains" "queue s = drop k domains"
    "mset (map Domain (emitted s)) + mset (busy (workers s)) = mset (take k domains)"
    unfolding Run_inv_def by blast
  from k(2) send(4) have lt: "k < length domains" by (cases "k < length domains") auto
  from k(2) send(4) have d: "domains ! k = d" "q = drop (Suc k) domains"
    using lt by (simp_all add: Cons_nth_drop_Suc [symmetric])
  have tk: "take (Suc k) domains = take k domains @ [d]"
    using lt d(1) by (simp add: take_Suc_conv_app_nth)
  have "mset (map Domain (emitted s)) + mset (busy ((workers s)[i := Busy d]))
      = mset (take (Suc k) domains)"
    using k(3) busy_update_Busy [OF send(5,6), of d] by (simp add: tk)
  with lt d(2) have "\<exists>k'\<le>length domains. q = drop k' domains \<and>
      mset (map Domain (emitted s)) + mset (busy ((workers s)[i := Busy d])) = mset (take k' domains)"
    by (intro exI [of _ "Suc k"]) simp
  with assms(2) send show ?thesis by (auto simp: Run_inv_def)
next
  case stop
  with assms(2) show ?thesis by (auto simp: Run_inv_def)
next
  case finish
  with assms(2) show ?thesis by (auto simp: Run_inv_def)
next
  case (work i d env)
  from assms(2) obtain k where k: "k \<le> length domains" "queue s = drop k domains"
    "mset (map Domain (emitted s)) + mset (busy (workers s)) = mset (take k domains)"
    unfolding Run_inv_def by blast
  have b: "mset (busy (workers s)) = add_mset d (mset (busy ((workers s)[i := Idle])))"
    using busy_update_Idle [OF work(2,3)] by simp
  have "mset (map Domain (emitted s @ [RunOneDomain env d cfg])) + mset (busy ((workers s)[i := Idle]))
      = mset (take k domains)"
    using k(3) unfolding b by simp
  with k(1,2) have "\<exists>k'\<le>length domains. queue s = drop k' domains \<and>
      mset (map Domain (emitted s @ [RunOneDomain env d cfg])) + mset (busy ((workers s)[i := Idle]))
      = mset (take k' domains)"
    by blast
  moreover have "returned s = None"
  proof (rule ccontr)
    assume "returned s \<noteq> None"
    with assms(2) have "\<forall>w\<in>set (workers s). w = Exited" by (simp add: Run_inv_def)
    with work(2,3) show False by (metis nth_mem worker.distinct(5))
  qed
  ultimately show ?thesis using assms(1,2) work(1) by (auto simp: Run_inv_def)
next
  case (exit i)
  have "returned s = None"
  proof (rule ccontr)
    assume "returned s \<noteq> None"
    with assms(2) have "\<forall>w\<in>set (workers s). w = Exited" by (simp add: Run_inv_def)
    with exit(3,4) show False by (metis nth_mem worker.distinct(3))
  qed
  with assms(2) exit show ?thesis
    by (auto simp: Run_inv_def busy_update_Exited)
next
  case return
  with assms(2) show ?thesis by (auto simp: Run_inv_def)
qed

lemma Run_inv_reach:
  assumes "validate cfg = None" "domains \<noteq> []" "OnResult_set cb"
    and "Run_reach ctx_err cfg cb domains s"
  shows "Run_inv ctx_err domains s"
  using assms(4) unfolding Run_reach_def
proof (induction rule: rtranclp_induct)
  case base
  show ?case using assms(1,2) by (rule Run_inv_start)
next
  case (step s s')
  show ?case using assms(3) step.IH step.hyps(2) by (rule Run_inv_step)
qed

section \<open>Resolving candidates\<close>

declare filter_loop.simps [simp del]

lemma addIPs_keys:
  assumes "list_all (\<lambda>(ip, via). IsValid ip \<and> \<not> IsUnspecified ip) seen"
  shows "list_all (\<lambda>(ip, via). IsValid ip \<and> \<not> IsUnspecified ip) (addIPs seen via ips)"
  using assms
proof (induction ips arbitrary: seen)
  case Nil
  then show ?case by simp
next
  case (Cons ip ips)
  show ?case
  proof (cases "IsValid ip \<and> \<not> IsUnspecified ip")
    case False
    then have "addIPs seen via (ip # ips) = addIPs seen via ips" by auto
    then show ?thesis using Cons.IH [OF Cons.prems] by simp
  next
    case True
    show ?thesis
    proof (cases "map_of seen ip")
      case None
      with True have eq: "addIPs seen via (ip # ips) = addIPs (seen @ [(ip, via)]) via ips" by simp
      have "list_all (\<lambda>(ip, via). IsValid ip \<and> \<not> IsUnspecified ip) (seen @ [(ip, via)])"
        using Cons.prems True by simp
      then show ?thesis unfolding eq by (rule Cons.IH)
    next
      case (Some v)
      with True have "addIPs seen via (ip # ips) = addIPs seen via ips" by simp
      then show ?thesis using Cons.IH [OF Cons.prems] by simp
    qed
  qed
qed

lemma servers_loop_keys:
  assumes "list_all (\<lambda>(ip, via). IsValid ip \<and> \<not> IsUnspecified ip) seen"
  shows "list_all (\<lambda>(ip, via). IsValid ip \<and> \<not> IsUnspecified ip)
           (servers_loop srv ipv4 ipv6 i servers seen)"
  using assms
proof (induction servers arbitrary: i seen)
  case Nil
  then show ?case by simp
next
  case (Cons s0 servers)
  show ?case
  proof (cases "TrimSpace s0 = []")
    case True
    then have "servers_loop srv ipv4 ipv6 i (s0 # servers) seen
        = servers_loop srv ipv4 ipv6 (i + 1) servers seen"
      by (simp add: Let_def)
    then show ?thesis using Cons.IH [OF Cons.prems] by simp
  next
    case False
    show ?thesis
    proof (cases "srv i (TrimSpace s0)")
      case (Inl err)
      with False have "servers_loop srv ipv4 ipv6 i (s0 # servers) seen
          = servers_loop srv ipv4 ipv6 (i + 1) servers seen"
        by (simp add: Let_def)
      then show ?thesis using Cons.IH [OF Cons.prems] by simp
    next
      case (Inr ips)
      with False have "servers_loop srv ipv4 ipv6 i (s0 # servers) seen
          = servers_loop srv ipv4 ipv6 (i + 1) servers
              (addIPs seen (TrimSpace s0) (filterIPVersions ips ipv4 ipv6))"
        by (simp add: Let_def)
      then show ?thesis
        using Cons.IH [OF addIPs_keys [OF Cons.prems]] by simp
    qed
  qed
qed

lemma servers_loop_all_fail:
  assumes "\<forall>i s. \<exists>err. srv i s = Inl err"
  shows "servers_loop srv ipv4 ipv6 i servers seen = seen"
proof (induction servers arbitrary: i)
  case Nil
  show ?case by simp
next
  case (Cons s0 servers)
  obtain err where "srv i (TrimSpace s0) = Inl err" using assms by blast
  then show ?case using Cons.IH by (simp add: Let_def)
qed

lemma set_insert_by_IP: "set (insert_by_IP c cs) = insert c (set cs)"
  by (induction c cs rule: insert_by_IP.induct) auto

lemma set_sort_by_IP: "set (foldr insert_by_IP cs []) = set cs"
  by (induction cs) (simp_all add: set_insert_by_IP)

lemma filter_loop_Nil: "filter_loop [] i w ipv4 ipv6 = []"
  by (subst filter_loop.simps) simp

text \<open>
  Writing into the array that is being read does no harm: the write index never passes the
  read index, and \<open>filterIPVersions\<close> is the filter of the list.
\<close>

lemma Is4_not_Is6: "Is4 ip \<Longrightarrow> \<not> Is6 ip"
  by (cases ip) simp_all

lemma filter_loop_filter:
  assumes "w \<le> i" "i \<le> length arr"
  shows "filter_loop arr i w ipv4 ipv6
           = take w arr @ filter (\<lambda>ip. Is4 ip \<and> ipv4 \<or> Is6 ip \<and> ipv6) (drop i arr)"
  using assms
proof (induction arr i w ipv4 ipv6 rule: filter_loop.induct)
  case (1 arr i w ipv4 ipv6)
  let ?p = "\<lambda>ip. Is4 ip \<and> ipv4 \<or> Is6 ip \<and> ipv6"
  show ?case
  proof (cases "i < length arr")
    case False
    with "1.prems" show ?thesis by (subst filter_loop.simps) simp
  next
    case True
    then have dr: "drop i arr = arr ! i # drop (Suc i) arr"
      by (simp add: Cons_nth_drop_Suc)
    have wl: "w < length arr" using True "1.prems"(1) by simp
    consider "Is4 (arr ! i) \<and> ipv4" | "Is6 (arr ! i) \<and> ipv6" | "\<not> ?p (arr ! i)" by blast
    then show ?thesis
    proof cases
      case 1
      then have n6: "\<not> (Is6 (arr ! i) \<and> ipv6)" using Is4_not_Is6 by blast
      have "filter_loop (arr[w := arr ! i]) (i + 1) (w + 1) ipv4 ipv6
          = take (w + 1) (arr[w := arr ! i]) @ filter ?p (drop (i + 1) (arr[w := arr ! i]))"
        using "1.IH" [OF True refl _ refl _ refl, of "arr[w := arr ! i]" "w + 1" "arr[w := arr ! i]" "w + 1"]
          1 n6 "1.prems" True by simp
      also have "take (w + 1) (arr[w := arr ! i]) = take w arr @ [arr ! i]"
        using wl by (simp add: take_Suc_conv_app_nth)
      also have "drop (i + 1) (arr[w := arr ! i]) = drop (i + 1) arr"
        using "1.prems"(1) by simp
      finally show ?thesis
        using True 1 n6 by (subst filter_loop.simps) (auto simp: dr Let_def dest: Is4_not_Is6)
    next
      case 2
      then have n4: "\<not> (Is4 (arr ! i) \<and> ipv4)" using Is4_not_Is6 by blast
      have "filter_loop (arr[w := arr ! i]) (i + 1) (w + 1) ipv4 ipv6
          = take (w + 1) (arr[w := arr ! i]) @ filter ?p (drop (i + 1) (arr[w := arr ! i]))"
        using "1.IH" [OF True refl _ refl _ refl, of arr w "arr[w := arr ! i]" "w + 1"]
          2 n4 "1.prems" True by simp
      also have "take (w + 1) (arr[w := arr ! i]) = take w arr @ [arr ! i]"
        using wl by (simp add: take_Suc_conv_app_nth)
      also have "drop (i + 1) (arr[w := arr ! i]) = drop (i + 1) arr"
        using "1.prems"(1) by simp
      finally show ?thesis
        using True 2 n4 by (subst filter_loop.simps) (auto simp: dr Let_def dest: Is4_not_Is6)
    next
      case 3
      have "filter_loop arr (i + 1) w ipv4 ipv6 = take w arr @ filter ?p (drop (i + 1) arr)"
        using "1.IH" [OF True refl _ refl _ refl, of arr w arr w] 3 "1.prems" True by simp
      then show ?thesis
        using True 3 by (subst filter_loop.simps) (auto simp: dr Let_def dest: Is4_not_Is6)
    qed
  qed
qed

lemma filterIPVersions_filter:
  "filterIPVersions ips ipv4 ipv6 = filter (\<lambda>ip. Is4 ip \<and> ipv4 \<or> Is6 ip \<and> ipv6) ips"
  using filter_loop_filter [of 0 0 ips ipv4 ipv6] by (simp add: filterIPVersions_def)


text \<open>
  C10. \<open>ResolveCandidates\<close> always returns a nil error; every candidate it returns has a
  valid address that is not unspecified (neither \<open>0.0.0.0\<close> nor \<open>::\<close>); when every lookup
  fails it returns the empty list with a nil error; and on an empty list it is
  \<open>RunOneDomain\<close> that reports \<open>no candidate ip\<close>.
\<close>

theorem ResolveCandidates_valid:
  "snd (ResolveCandidates sys srv domain servers ipv4 ipv6) = None \<and>
   (\<forall>c\<in>set (fst (ResolveCandidates sys srv domain servers ipv4 ipv6)).
      case c of Candidate ip via \<Rightarrow>
        IsValid ip \<and> \<not> IsUnspecified ip \<and> ip \<noteq> Addr4 0 \<and> ip \<noteq> Addr6 0 []) \<and>
   ((\<exists>err. sys = Inl err) \<and> (\<forall>i s. \<exists>err. srv i s = Inl err) \<longrightarrow>
      ResolveCandidates sys srv domain servers ipv4 ipv6 = ([], None)) \<and>
   (fst (ResolveCandidates (sys_lookup env) (srv_lookup env) domain (DNSServers cfg)
           (IPv4 cfg) (IPv6 cfg)) = [] \<longrightarrow>
      Err (RunOneDomain env domain cfg) = Some ''no candidate ip'')"
proof -
  define sysIPs where "sysIPs = (case sys of Inl err \<Rightarrow> [] | Inr ips \<Rightarrow> ips)"
  define seen where "seen = servers_loop srv ipv4 ipv6 0 servers
      (addIPs [] ''system'' (filterIPVersions sysIPs ipv4 ipv6))"
  have res: "ResolveCandidates sys srv domain servers ipv4 ipv6
      = (foldr insert_by_IP (map (\<lambda>(ip, via). Candidate ip via) seen) [], None)"
    by (simp add: ResolveCandidates_def Let_def seen_def sysIPs_def)
  have "list_all (\<lambda>(ip, via). IsValid ip \<and> \<not> IsUnspecified ip) []" by simp
  then have keys: "list_all (\<lambda>(ip, via). IsValid ip \<and> \<not> IsUnspecified ip) seen"
    unfolding seen_def by (intro servers_loop_keys addIPs_keys)
  have valid: "case c of Candidate ip via \<Rightarrow>
        IsValid ip \<and> \<not> IsUnspecified ip \<and> ip \<noteq> Addr4 0 \<and> ip \<noteq> Addr6 0 []"
    if "c \<in> set (fst (ResolveCandidates sys srv domain servers ipv4 ipv6))" for c
  proof -
    from that obtain ip via where c: "c = Candidate ip via" "(ip, via) \<in> set seen"
      by (auto simp: res set_sort_by_IP)
    then have "IsValid ip \<and> \<not> IsUnspecified ip"
      using keys unfolding list_all_iff by blast
    then show ?thesis by (auto simp: c(1) IsUnspecified_def)
  qed
  have none: "ResolveCandidates sys srv domain servers ipv4 ipv6 = ([], None)"
    if "(\<exists>err. sys = Inl err) \<and> (\<forall>i s. \<exists>err. srv i s = Inl err)"
  proof -
    from that have "sysIPs = []" by (auto simp: sysIPs_def)
    then have "seen = []"
      using that by (simp add: seen_def servers_loop_all_fail filterIPVersions_def filter_loop_Nil)
    then show ?thesis by (simp add: res)
  qed
  have run: "Err (RunOneDomain env domain cfg) = Some ''no candidate ip''"
    if "fst (ResolveCandidates (sys_lookup env) (srv_lookup env) domain (DNSServers cfg)
           (IPv4 cfg) (IPv6 cfg)) = []"
  proof -
    have "snd (ResolveCandidates (sys_lookup env) (srv_lookup env) domain (DNSServers cfg)
           (IPv4 cfg) (IPv6 cfg)) = None"
      by (simp add: ResolveCandidates_def Let_def)
    with that have "ResolveCandidates (sys_lookup env) (srv_lookup env) domain (DNSServers cfg)
           (IPv4 cfg) (IPv6 cfg) = ([], None)"
      by (simp add: prod_eq_iff)
    then show ?thesis
      by (simp add: RunOneDomain_def empty_DomainResult_def)
  qed
  have "snd (ResolveCandidates sys srv domain servers ipv4 ipv6) = None"
    by (simp add: res)
  with valid none run show ?thesis by blast
qed

theorem ResolveCandidates_valid_witness:
  "ResolveCandidates (Inr [Addr4 5, Addr4 0, Addr6 0 [], AddrZero, Addr6 7 [], Addr4 1])
     (\<lambda>i s. if i = 1 then Inr [Addr4 1, Addr4 2] else Inl ''i/o timeout'')
     ''a.com'' [''  '', '' 8.8.8.8 ''] True True
   = ([Candidate (Addr4 1) ''system'', Candidate (Addr4 2) ''8.8.8.8'',
       Candidate (Addr4 5) ''system'', Candidate (Addr6 7 []) ''system''], None) \<and>
   IsValid (Addr4 2) \<and> \<not> IsUnspecified (Addr4 2) \<and>
   ResolveCandidates (sys_lookup example_env_failing) (srv_lookup example_env_failing)
     ''a.com'' (DNSServers example_cfg) (IPv4 example_cfg) (IPv6 example_cfg) = ([], None) \<and>
   Err (RunOneDomain example_env_failing ''a.com'' example_cfg) = Some ''no candidate ip''"
proof -
  let ?sys = "Inr [Addr4 5, Addr4 0, Addr6 0 [], AddrZero, Addr6 7 [], Addr4 1] :: string + Addr list"
  let ?srv = "\<lambda>(i::nat) (s::string). if i = 1 then Inr [Addr4 1, Addr4 2] else (Inl ''i/o timeout'' :: string + Addr list)"
  have run: "ResolveCandidates ?sys ?srv ''a.com'' [''  '', '' 8.8.8.8 ''] True True
   = ([Candidate (Addr4 1) ''system'', Candidate (Addr4 2) ''8.8.8.8'',
       Candidate (Addr4 5) ''system'', Candidate (Addr6 7 []) ''system''], None)"
    by code_simp
  note a = ResolveCandidates_valid [of ?sys ?srv "''a.com''" "[''  '', '' 8.8.8.8 '']" True True
      example_env_failing example_cfg]
  from a have "\<forall>c\<in>set (fst (ResolveCandidates ?sys ?srv ''a.com'' [''  '', '' 8.8.8.8 ''] True True)).
      case c of Candidate ip via \<Rightarrow>
        IsValid ip \<and> \<not> IsUnspecified ip \<and> ip \<noteq> Addr4 0 \<and> ip \<noteq> Addr6 0 []"
    by (elim conjE)
  then have ok: "IsValid (Addr4 2) \<and> \<not> IsUnspecified (Addr4 2)"
    unfolding run by simp
  have fail: "(\<exists>err. sys_lookup example_env_failing = Inl err) \<and>
      (\<forall>i s. \<exists>err. srv_lookup example_env_failing i s = Inl err)"
    by (simp add: example_env_failing_def)
  note b = ResolveCandidates_valid [of "sys_lookup example_env_failing"
      "srv_lookup example_env_failing" "''a.com''" "DNSServers example_cfg" "IPv4 example_cfg"
      "IPv6 example_cfg" example_env_failing example_cfg]
  from b fail have empty: "ResolveCandidates (sys_lookup example_env_failing)
      (srv_lookup example_env_failing) ''a.com'' (DNSServers example_cfg) (IPv4 example_cfg)
      (IPv6 example_cfg) = ([], None)"
    by blast
  with b have "Err (RunOneDomain example_env_failing ''a.com'' example_cfg) = Some ''no candidate ip''"
    by simp
  with run ok empty show ?thesis by (intro conjI) simp_all
qed

lemma returned_terminal:
  assumes "Run_inv ctx_err domains s" "returned s \<noteq> None" "Run_step ctx_err cfg cb domains s s'"
  shows "emitted s' = emitted s \<and> returned s' = returned s \<and> queue s' = queue s"
proof -
  from assms(1,2) have ex: "\<forall>w\<in>set (workers s). w = Exited"
    by (simp add: Run_inv_def)
  from assms(3) show ?thesis
  proof cases
    case cancel
    then show ?thesis by simp
  next
    case (send d q i)
    with assms(2) show ?thesis by simp
  next
    case stop
    with assms(2) show ?thesis by simp
  next
    case finish
    with assms(2) show ?thesis by simp
  next
    case (work i d env)
    with ex show ?thesis by (metis nth_mem worker.distinct(5))
  next
    case (exit i)
    with ex show ?thesis by (metis nth_mem worker.distinct(3))
  next
    case return
    with assms(2) show ?thesis by simp
  qed
qed

lemma weight_update:
  "i < length ws \<Longrightarrow>
   sum_list (map worker_weight (ws[i := w])) + worker_weight (ws ! i) =
   sum_list (map worker_weight ws) + worker_weight w"
proof (induction ws arbitrary: i)
  case Nil
  then show ?case by simp
next
  case (Cons v ws)
  show ?case
  proof (cases i)
    case 0
    then show ?thesis by simp
  next
    case (Suc j)
    with Cons.prems have "j < length ws" by simp
    from Cons.IH [OF this] Suc show ?thesis by simp
  qed
qed

lemma Run_live_start:
  assumes "validate cfg = None" "domains \<noteq> []"
  shows "Run_live cfg (Run_start cfg cb domains)"
  using assms
  by (auto simp: Run_live_def Run_start_def validate_def split: if_splits)

lemma Run_live_step:
  assumes "Run_live cfg s" "Run_step ctx_err cfg cb domains s s'"
  shows "Run_live cfg s'"
  using assms(2)
proof cases
  case cancel
  with assms(1) show ?thesis by (simp add: Run_live_def)
next
  case (send d q i)
  with assms(1) show ?thesis
    by (auto simp: Run_live_def dest!: set_update_subset_insert [THEN subsetD])
next
  case stop
  with assms(1) show ?thesis by (simp add: Run_live_def)
next
  case finish
  with assms(1) show ?thesis by (simp add: Run_live_def)
next
  case (work i d env)
  with assms(1) show ?thesis
    by (auto simp: Run_live_def dest!: set_update_subset_insert [THEN subsetD])
next
  case (exit i)
  with assms(1) show ?thesis by (simp add: Run_live_def)
next
  case return
  with assms(1) show ?thesis by (simp add: Run_live_def)
qed

lemma Run_live_reach:
  assumes "validate cfg = None" "domains \<noteq> []"
    and "Run_reach ctx_err cfg cb domains s"
  shows "Run_live cfg s"
  using assms(3) unfolding Run_reach_def
proof (induction rule: rtranclp_induct)
  case base
  show ?case using assms(1,2) by (rule Run_live_start)
next
  case (step s s')
  show ?case using step.IH step.hyps(2) by (rule Run_live_step)
qed

lemma Run_measure_step:
  assumes "Run_step ctx_err cfg cb domains s s'"
  shows "Run_measure s' \<le> Run_measure s \<and>
         (Run_measure s' = Run_measure s \<longrightarrow> s' = s\<lparr>cancelled := True\<rparr>)"
  using assms
proof cases
  case cancel
  then show ?thesis by (simp add: Run_measure_def)
next
  case (send d q i)
  from weight_update [OF send(5), of "Busy d"] send(6)
  have "sum_list (map worker_weight ((workers s)[i := Busy d])) =
      sum_list (map worker_weight (workers s)) + 1"
    by simp
  with send show ?thesis by (simp add: Run_measure_def)
next
  case stop
  then show ?thesis by (simp add: Run_measure_def)
next
  case finish
  then show ?thesis by (simp add: Run_measure_def)
next
  case (work i d env)
  from weight_update [OF work(2), of Idle] work(3)
  have "sum_list (map worker_weight ((workers s)[i := Idle])) + 1 =
      sum_list (map worker_weight (workers s))"
    by simp
  with work show ?thesis by (simp add: Run_measure_def)
next
  case (exit i)
  from weight_update [OF exit(3), of Exited] exit(4)
  have "sum_list (map worker_weight ((workers s)[i := Exited])) + 1 =
      sum_list (map worker_weight (workers s))"
    by simp
  with exit show ?thesis by (simp add: Run_measure_def)
next
  case return
  then show ?thesis by (simp add: Run_measure_def)
qed

text \<open>
  While \<open>Run\<close> has not returned, a step of the scheduler itself is enabled: a busy worker
  finishes its domain; or, with no worker busy, the dispatcher sends the next domain to an
  idle worker or closes the channel, an idle worker exits, or \<open>Run\<close> returns. The step
  chosen here is never the one that takes the cancellation.
\<close>

lemma Run_progress:
  assumes inv: "Run_inv ctx_err domains s" and live: "Run_live cfg s"
    and nr: "returned s = None"
  shows "\<exists>s'. Run_step ctx_err cfg cb domains s s' \<and> Run_measure s' < Run_measure s \<and>
              pending s' = pending s"
proof (cases "\<exists>d. Busy d \<in> set (workers s)")
  case True
  then obtain d i where i: "i < length (workers s)" "workers s ! i = Busy d"
    by (auto simp: in_set_conv_nth)
  let ?s' = "s\<lparr>emitted := (if OnResult_set cb then emitted s @ [RunOneDomain undefined d cfg]
                            else emitted s),
          done_count := done_count s + 1,
          progress := (if OnProgress_set cb
                       then progress s @ [(done_count s + 1, length domains)] else progress s),
          workers := (workers s)[i := Idle]\<rparr>"
  have st: "Run_step ctx_err cfg cb domains s ?s'"
    using i by (rule Run_step.work)
  from weight_update [OF i(1), of Idle] i(2)
  have "sum_list (map worker_weight ((workers s)[i := Idle])) + 1 =
      sum_list (map worker_weight (workers s))"
    by simp
  then have "Run_measure ?s' < Run_measure s" by (simp add: Run_measure_def)
  with st show ?thesis by (intro exI [of _ ?s']) simp
next
  case False
  then have nb: "\<And>w. w \<in> set (workers s) \<Longrightarrow> w = Idle \<or> w = Exited"
    by (metis worker.exhaust)
  show ?thesis
  proof (cases "closed s")
    case cl: True
    show ?thesis
    proof (cases "Idle \<in> set (workers s)")
      case True
      then obtain i where i: "i < length (workers s)" "workers s ! i = Idle"
        by (auto simp: in_set_conv_nth)
      let ?s' = "s\<lparr>workers := (workers s)[i := Exited]\<rparr>"
      have st: "Run_step ctx_err cfg cb domains s ?s'"
        using cl i by (rule Run_step.exit)
      from weight_update [OF i(1), of Exited] i(2)
      have "sum_list (map worker_weight ((workers s)[i := Exited])) + 1 =
          sum_list (map worker_weight (workers s))"
        by simp
      then have "Run_measure ?s' < Run_measure s" by (simp add: Run_measure_def)
      with st show ?thesis by (intro exI [of _ ?s']) simp
    next
      case False
      with nb have ex: "\<forall>w\<in>set (workers s). w = Exited" by blast
      let ?s' = "s\<lparr>returned := Some (pending s)\<rparr>"
      have st: "Run_step ctx_err cfg cb domains s ?s'"
        using nr cl ex by (rule Run_step.return)
      have "Run_measure ?s' < Run_measure s" using nr by (simp add: Run_measure_def)
      with st show ?thesis by (intro exI [of _ ?s']) simp
    qed
  next
    case op: False
    show ?thesis
    proof (cases "queue s")
      case Nil
      let ?s' = "s\<lparr>closed := True\<rparr>"
      have st: "Run_step ctx_err cfg cb domains s ?s'"
        using nr op Nil by (rule Run_step.finish)
      have "Run_measure ?s' < Run_measure s" using op by (simp add: Run_measure_def)
      with st show ?thesis by (intro exI [of _ ?s']) simp
    next
      case (Cons d q)
      from live have ne: "workers s \<noteq> []" by (auto simp: Run_live_def)
      from live op have "Exited \<notin> set (workers s)" by (simp add: Run_live_def)
      with nb ne have 0: "0 < length (workers s)" "workers s ! 0 = Idle"
        by (auto simp: neq_Nil_conv) (metis list.set_intros(1) nth_Cons_0)
      let ?s' = "s\<lparr>queue := q, workers := (workers s)[0 := Busy d]\<rparr>"
      have st: "Run_step ctx_err cfg cb domains s ?s'"
        using nr op Cons 0 by (rule Run_step.send)
      from weight_update [OF 0(1), of "Busy d"] 0(2)
      have "sum_list (map worker_weight ((workers s)[0 := Busy d])) =
          sum_list (map worker_weight (workers s)) + 1"
        by simp
      then have "Run_measure ?s' < Run_measure s" using Cons by (simp add: Run_measure_def)
      with st show ?thesis by (intro exI [of _ ?s']) simp
    qed
  qed
qed

lemma Run_returns:
  assumes cb: "OnResult_set cb"
    and inv: "Run_inv ctx_err domains s" and live: "Run_live cfg s"
  shows "\<exists>s'. (Run_step ctx_err cfg cb domains)\<^sup>*\<^sup>* s s' \<and> returned s' = Some (pending s)"
  using inv live
proof (induction "Run_measure s" arbitrary: s rule: less_induct)
  case less
  show ?case
  proof (cases "returned s = None")
    case False
    with less.prems(1) have "returned s = Some (pending s)" by (simp add: Run_inv_def)
    then show ?thesis by blast
  next
    case True
    from Run_progress [OF less.prems True, of cb] obtain s1
      where s1: "Run_step ctx_err cfg cb domains s s1" "Run_measure s1 < Run_measure s"
        "pending s1 = pending s"
      by blast
    have "Run_inv ctx_err domains s1" using cb less.prems(1) s1(1) by (rule Run_inv_step)
    moreover have "Run_live cfg s1" using less.prems(2) s1(1) by (rule Run_live_step)
    ultimately obtain s' where "(Run_step ctx_err cfg cb domains)\<^sup>*\<^sup>* s1 s'"
      "returned s' = Some (pending s1)"
      using less.hyps [OF s1(2)] by blast
    with s1 show ?thesis by (metis converse_rtranclp_into_rtranclp)
  qed
qed

lemma returned_results:
  assumes inv: "Run_inv ctx_err domains s" and r: "returned s = Some r"
  shows "(\<exists>k\<le>length domains.
               queue s = drop k domains \<and>
               mset (map Domain (emitted s)) = mset (take k domains)) \<and>
            (\<forall>w\<in>set (workers s). w = Exited) \<and>
            (r = None \<and> queue s = [] \<or> r = Some ctx_err \<and> queue s \<noteq> [] \<and> cancelled s) \<and>
            (r = None \<longrightarrow> mset (map Domain (emitted s)) = mset domains)"
proof -
  from inv obtain k where k: "k \<le> length domains" "queue s = drop k domains"
    "mset (map Domain (emitted s)) + mset (busy (workers s)) = mset (take k domains)"
    unfolding Run_inv_def by blast
  from inv r have ex: "\<forall>w\<in>set (workers s). w = Exited" and cl: "closed s"
    and p: "r = pending s"
    by (simp_all add: Run_inv_def)
  from ex have "busy (workers s) = []" by (rule busy_all_Exited)
  with k have e: "mset (map Domain (emitted s)) = mset (take k domains)" by simp
  with k have prefix: "\<exists>k\<le>length domains. queue s = drop k domains \<and>
      mset (map Domain (emitted s)) = mset (take k domains)"
    by auto
  from inv cl p have err: "r = None \<and> queue s = [] \<or> r = Some ctx_err \<and> queue s \<noteq> [] \<and> cancelled s"
    by (auto simp: Run_inv_def)
  have "mset (map Domain (emitted s)) = mset domains" if "r = None"
  proof -
    from err that have "queue s = []" by auto
    with k(1,2) have "k = length domains" by simp
    with e show ?thesis by simp
  qed
  with prefix ex err show ?thesis by blast
qed

text \<open>
  C1 (as amended). In every execution of \<open>Run\<close> with a valid configuration, a non-empty
  domain sequence and a result callback, the results emitted never exceed one per
  submitted domain. Once \<open>Run\<close> has returned, all workers have exited, the domains
  sent to the workers are a prefix of the sequence and each of them has exactly one result
  emitted, the domains of the remaining suffix have none, the error returned is nil when
  the suffix is empty (then every submitted domain has exactly one result) and the
  context's error when it is not (the context is then cancelled), and no later step emits
  a result or returns again. \<open>Run\<close> does return: while it has not, a step that lowers
  the measure is enabled; every step lowers the measure or is the cancellation of the
  context, which leaves it unchanged, so that an execution has at most as many other steps
  as the measure of its first state; and from every state of an execution \<open>Run\<close> can
  run on to its return, with the error pending in that state, which is nil with a result
  for every submitted domain when the cancellation has not been taken.
\<close>

theorem Run_results:
  assumes "validate cfg = None" and "domains \<noteq> []" and "OnResult_set cb"
    and "Run_reach ctx_err cfg cb domains s"
  shows "mset (map Domain (emitted s)) \<subseteq># mset domains \<and>
         (\<forall>r. returned s = Some r \<longrightarrow>
            (\<exists>k\<le>length domains.
               queue s = drop k domains \<and>
               mset (map Domain (emitted s)) = mset (take k domains)) \<and>
            (\<forall>w\<in>set (workers s). w = Exited) \<and>
            (r = None \<and> queue s = [] \<or> r = Some ctx_err \<and> queue s \<noteq> [] \<and> cancelled s) \<and>
            (r = None \<longrightarrow> mset (map Domain (emitted s)) = mset domains) \<and>
            (\<forall>s'. Run_step ctx_err cfg cb domains s s' \<longrightarrow>
               emitted s' = emitted s \<and> returned s' = returned s \<and> queue s' = queue s)) \<and>
         (returned s = None \<longrightarrow>
            (\<exists>s'. Run_step ctx_err cfg cb domains s s' \<and> Run_measure s' < Run_measure s)) \<and>
         (\<forall>s'. Run_step ctx_err cfg cb domains s s' \<longrightarrow>
            Run_measure s' \<le> Run_measure s \<and>
            (Run_measure s' = Run_measure s \<longrightarrow> s' = s\<lparr>cancelled := True\<rparr>)) \<and>
         (\<exists>s'. (Run_step ctx_err cfg cb domains)\<^sup>*\<^sup>* s s' \<and> returned s' = Some (pending s) \<and>
            (pending s = None \<longrightarrow> mset (map Domain (emitted s')) = mset domains))"
proof -
  have inv: "Run_inv ctx_err domains s"
    using assms by (rule Run_inv_reach)
  have live: "Run_live cfg s"
    using assms(1,2,4) by (rule Run_live_reach)
  from inv obtain k where k: "k \<le> length domains" "queue s = drop k domains"
    "mset (map Domain (emitted s)) + mset (busy (workers s)) = mset (take k domains)"
    unfolding Run_inv_def by blast
  have "mset (take k domains) \<subseteq># mset domains"
    by (metis append_take_drop_id mset_append mset_subset_eq_add_left)
  moreover have "mset (map Domain (emitted s)) \<subseteq># mset (take k domains)"
    using k(3) by (metis mset_subset_eq_add_left)
  ultimately have sub: "mset (map Domain (emitted s)) \<subseteq># mset domains"
    by (rule subset_mset.order_trans [rotated])
  have ret: "\<forall>r. returned s = Some r \<longrightarrow>
            (\<exists>k\<le>length domains.
               queue s = drop k domains \<and>
               mset (map Domain (emitted s)) = mset (take k domains)) \<and>
            (\<forall>w\<in>set (workers s). w = Exited) \<and>
            (r = None \<and> queue s = [] \<or> r = Some ctx_err \<and> queue s \<noteq> [] \<and> cancelled s) \<and>
            (r = None \<longrightarrow> mset (map Domain (emitted s)) = mset domains) \<and>
            (\<forall>s'. Run_step ctx_err cfg cb domains s s' \<longrightarrow>
               emitted s' = emitted s \<and> returned s' = returned s \<and> queue s' = queue s)"
  proof (intro allI impI)
    fix r
    assume r: "returned s = Some r"
    note rr = returned_results [OF inv r]
    have t: "\<forall>s'. Run_step ctx_err cfg cb domains s s' \<longrightarrow>
        emitted s' = emitted s \<and> returned s' = returned s \<and> queue s' = queue s"
      using returned_terminal [OF inv] r by blast
    show "(\<exists>k\<le>length domains.
               queue s = drop k domains \<and>
               mset (map Domain (emitted s)) = mset (take k domains)) \<and>
            (\<forall>w\<in>set (workers s). w = Exited) \<and>
            (r = None \<and> queue s = [] \<or> r = Some ctx_err \<and> queue s \<noteq> [] \<and> cancelled s) \<and>
            (r = None \<longrightarrow> mset (map Domain (emitted s)) = mset domains) \<and>
            (\<forall>s'. Run_step ctx_err cfg cb domains s s' \<longrightarrow>
               emitted s' = emitted s \<and> returned s' = returned s \<and> queue s' = queue s)"
      by (rule conjI [OF rr [THEN conjunct1]
            conjI [OF rr [THEN conjunct2, THEN conjunct1]
              conjI [OF rr [THEN conjunct2, THEN conjunct2, THEN conjunct1]
                conjI [OF rr [THEN conjunct2, THEN conjunct2, THEN conjunct2] t]]]])
  qed
  have prog: "returned s = None \<longrightarrow>
      (\<exists>s'. Run_step ctx_err cfg cb domains s s' \<and> Run_measure s' < Run_measure s)"
  proof
    assume "returned s = None"
    from Run_progress [OF inv live this, of cb] obtain s1
      where "Run_step ctx_err cfg cb domains s s1" "Run_measure s1 < Run_measure s"
      by blast
    then show "\<exists>s'. Run_step ctx_err cfg cb domains s s' \<and> Run_measure s' < Run_measure s"
      by (intro exI [of _ s1] conjI)
  qed
  have meas: "\<forall>s'. Run_step ctx_err cfg cb domains s s' \<longrightarrow>
      Run_measure s' \<le> Run_measure s \<and>
      (Run_measure s' = Run_measure s \<longrightarrow> s' = s\<lparr>cancelled := True\<rparr>)"
    by (intro allI impI) (rule Run_measure_step)
  from Run_returns [OF assms(3) inv live] obtain s1
    where s1: "(Run_step ctx_err cfg cb domains)\<^sup>*\<^sup>* s s1" "returned s1 = Some (pending s)"
    by blast
  have "(Run_step ctx_err cfg cb domains)\<^sup>*\<^sup>* (Run_start cfg cb domains) s1"
    using assms(4) s1(1) unfolding Run_reach_def by (rule rtranclp_trans)
  then have "Run_reach ctx_err cfg cb domains s1"
    unfolding Run_reach_def .
  with assms(1-3) have "Run_inv ctx_err domains s1" by (rule Run_inv_reach)
  note rr = returned_results [OF this s1(2)]
  have all: "pending s = None \<longrightarrow> mset (map Domain (emitted s1)) = mset domains"
    by (rule rr [THEN conjunct2, THEN conjunct2, THEN conjunct2])
  have fin: "\<exists>s'. (Run_step ctx_err cfg cb domains)\<^sup>*\<^sup>* s s' \<and>
      returned s' = Some (pending s) \<and>
      (pending s = None \<longrightarrow> mset (map Domain (emitted s')) = mset domains)"
    by (rule exI [of _ s1]) (rule conjI [OF s1(1) conjI [OF s1(2) all]])
  show ?thesis
    by (rule conjI [OF sub conjI [OF ret conjI [OF prog conjI [OF meas fin]]]])
qed

lemma example_start:
  "Run_start example_cfg example_cb [''a.com''] =
     \<lparr>queue = [''a.com''], closed = False, cancelled = False, workers = [Idle], emitted = [],
      done_count = 0, progress = [(0, 1)], pending = None, returned = None\<rparr>"
  by (simp add: Run_start_def validate_def example_cfg_def example_cb_def)

lemma example_cancelled_reach:
  "Run_reach ''context canceled'' example_cfg example_cb [''a.com''] example_cancelled_run"
proof -
  let ?step = "Run_step ''context canceled'' example_cfg example_cb [''a.com'']"
  let ?s0 = "\<lparr>queue = [''a.com''], closed = False, cancelled = False, workers = [Idle],
      emitted = [], done_count = 0, progress = [(0, 1)], pending = None,
      returned = None :: string option option\<rparr>"
  let ?s1 = "?s0\<lparr>cancelled := True\<rparr>"
  let ?s2 = "?s1\<lparr>closed := True, pending := Some ''context canceled''\<rparr>"
  let ?s3 = "?s2\<lparr>workers := (workers ?s2)[0 := Exited]\<rparr>"
  let ?s4 = "?s3\<lparr>returned := Some (pending ?s3)\<rparr>"
  have 1: "?step ?s0 ?s1" by (rule Run_step.cancel)
  have 2: "?step ?s1 ?s2" by (rule Run_step.stop) simp_all
  have 3: "?step ?s2 ?s3" by (rule Run_step.exit) simp_all
  have 4: "?step ?s3 ?s4" by (rule Run_step.return) simp_all
  have "?step\<^sup>*\<^sup>* ?s0 ?s4"
    using 1 2 3 4 by (meson rtranclp.rtrancl_into_rtrancl rtranclp.rtrancl_refl)
  moreover have "?s4 = example_cancelled_run"
    by (simp add: example_cancelled_run_def)
  ultimately show ?thesis
    by (simp add: Run_reach_def example_start)
qed

text \<open>
  The claim as the specification states it fails when the dispatcher takes the
  cancellation before it has sent a domain: \<open>Run\<close> closes the channel, waits for the
  workers and returns the context's error, and the domain has no result.
\<close>

theorem Run_cancel_counterexample:
  "Run_reach ''context canceled'' example_cfg example_cb [''a.com''] example_cancelled_run \<and>
   validate example_cfg = None \<and> OnResult_set example_cb \<and>
   returned example_cancelled_run = Some (Some ''context canceled'') \<and>
   emitted example_cancelled_run = []"
  using example_cancelled_reach
  by (simp add: example_cancelled_run_def validate_def example_cfg_def example_cb_def)

lemma example_done_reach:
  "Run_reach ''context canceled'' example_cfg example_cb [''a.com''] example_done_run"
proof -
  let ?step = "Run_step ''context canceled'' example_cfg example_cb [''a.com'']"
  let ?s0 = "\<lparr>queue = [''a.com''], closed = False, cancelled = False, workers = [Idle],
      emitted = [], done_count = 0, progress = [(0, 1)], pending = None,
      returned = None :: string option option\<rparr>"
  let ?s1 = "?s0\<lparr>queue := [], workers := (workers ?s0)[0 := Busy ''a.com'']\<rparr>"
  let ?s2 = "?s1\<lparr>emitted := (if OnResult_set example_cb
          then emitted ?s1 @ [RunOneDomain example_env_failing ''a.com'' example_cfg]
          else emitted ?s1),
        done_count := done_count ?s1 + 1,
        progress := (if OnProgress_set example_cb
          then progress ?s1 @ [(done_count ?s1 + 1, length [''a.com''])] else progress ?s1),
        workers := (workers ?s1)[0 := Idle]\<rparr>"
  let ?s3 = "?s2\<lparr>closed := True\<rparr>"
  let ?s4 = "?s3\<lparr>workers := (workers ?s3)[0 := Exited]\<rparr>"
  let ?s5 = "?s4\<lparr>returned := Some (pending ?s4)\<rparr>"
  have 1: "?step ?s0 ?s1" by (rule Run_step.send) simp_all
  have 2: "?step ?s1 ?s2" by (rule Run_step.work) simp_all
  have 3: "?step ?s2 ?s3" by (rule Run_step.finish) simp_all
  have 4: "?step ?s3 ?s4" by (rule Run_step.exit) simp_all
  have 5: "?step ?s4 ?s5" by (rule Run_step.return) simp_all
  have "?step\<^sup>*\<^sup>* ?s0 ?s5"
    using 1 2 3 4 5 by (meson rtranclp.rtrancl_into_rtrancl rtranclp.rtrancl_refl)
  moreover have "?s5 = example_done_run"
    by (simp add: example_done_run_def example_cb_def)
  ultimately show ?thesis
    by (simp add: Run_reach_def example_start)
qed

theorem Run_results_witness:
  "validate example_cfg = None \<and> OnResult_set example_cb \<and>
   Run_reach ''context canceled'' example_cfg example_cb [''a.com''] example_done_run \<and>
   returned example_done_run = Some None \<and>
   map Domain (emitted example_done_run) = [''a.com''] \<and>
   queue example_done_run = [] \<and>
   workers example_done_run = [Exited] \<and>
   (\<exists>s'. (Run_step ''context canceled'' example_cfg example_cb [''a.com''])\<^sup>*\<^sup>*
            (Run_start example_cfg example_cb [''a.com'']) s' \<and>
          returned s' = Some None \<and> mset (map Domain (emitted s')) = mset [''a.com''])"
proof -
  have v: "validate example_cfg = None"
    by (simp add: validate_def example_cfg_def)
  have ne: "[''a.com''] \<noteq> ([] :: string list)" by simp
  have cb: "OnResult_set example_cb" by (simp add: example_cb_def)
  have ret: "returned example_done_run = Some None"
    by (simp add: example_done_run_def)
  have dom: "map Domain (emitted example_done_run) = [''a.com'']"
    by (simp add: example_done_run_def)
  note th0 = Run_results [OF v ne cb example_done_reach]
  note at_return = th0 [THEN conjunct2, THEN conjunct1, THEN spec, THEN mp, OF ret]
  from at_return [THEN conjunct2, THEN conjunct1]
    at_return [THEN conjunct2, THEN conjunct2, THEN conjunct1]
  have "(\<forall>w\<in>set (workers example_done_run). w = Exited) \<and> queue example_done_run = []"
    by simp
  moreover have "length (workers example_done_run) = 1"
    by (simp add: example_done_run_def)
  ultimately have w: "workers example_done_run = [Exited] \<and> queue example_done_run = []"
    by (cases "workers example_done_run") auto
  have start: "Run_reach ''context canceled'' example_cfg example_cb [''a.com'']
      (Run_start example_cfg example_cb [''a.com''])"
    by (simp add: Run_reach_def)
  have p: "pending (Run_start example_cfg example_cb [''a.com'']) = None"
    by (simp add: example_start)
  note th = Run_results [OF v ne cb start]
  from th [THEN conjunct2, THEN conjunct2, THEN conjunct2, THEN conjunct2] obtain s1
    where s1c: "(Run_step ''context canceled'' example_cfg example_cb [''a.com''])\<^sup>*\<^sup>*
        (Run_start example_cfg example_cb [''a.com'']) s1 \<and>
      returned s1 = Some (pending (Run_start example_cfg example_cb [''a.com''])) \<and>
      (pending (Run_start example_cfg example_cb [''a.com'']) = None \<longrightarrow>
        mset (map Domain (emitted s1)) = mset [''a.com''])" ..
  note s1 = s1c [THEN conjunct1] s1c [THEN conjunct2, THEN conjunct1]
    s1c [THEN conjunct2, THEN conjunct2]
  from s1(2) have r1: "returned s1 = Some None"
    unfolding p .
  from s1(3) p have "mset (map Domain (emitted s1)) = mset [''a.com'']"
    by (rule mp)
  note r1 this
  with s1(1)
  have "\<exists>s'. (Run_step ''context canceled'' example_cfg example_cb [''a.com''])\<^sup>*\<^sup>*
            (Run_start example_cfg example_cb [''a.com'']) s' \<and>
          returned s' = Some None \<and> mset (map Domain (emitted s')) = mset [''a.com'']"
    by (intro exI [of _ s1] conjI)
  note ex = this
  show ?thesis
    by (intro conjI v cb example_done_reach ret dom w [THEN conjunct1] w [THEN conjunct2] ex)
qed

end
